theory Spec2Isabelle
  imports Main "HOL-Library.Word"
begin

section \<open>The paging simulator: data model\<close>

text \<open>
  The simulator of \<^verbatim>\<open>sim_paging.h\<close>, \<^verbatim>\<open>sim_pag_fifo.c\<close> and \<^verbatim>\<open>sim_pag_lru.c\<close>.

  \<^item> C \<^verbatim>\<open>unsigned\<close> values (virtual and physical addresses, the clock, the timestamps)
    are 32-bit words: \<open>+\<close> wraps modulo \<open>2 ^ 32\<close>.
  \<^item> C \<^verbatim>\<open>int\<close> indices and sizes are HOL integers; a conversion from \<^verbatim>\<open>unsigned\<close>
    to \<^verbatim>\<open>int\<close> is \<open>sint\<close>, one from \<^verbatim>\<open>int\<close> to \<^verbatim>\<open>unsigned\<close> is \<open>word_of_int\<close>. The
    product and sum of \<^verbatim>\<open>frame * pagsz + offset\<close> are converted to \<^verbatim>\<open>unsigned\<close> at once:
    \<open>word_of_int\<close> of the exact integer is the value modulo \<open>2 ^ 32\<close>.
  \<^item> The five statistics counters are C \<^verbatim>\<open>int\<close> values that only ever see \<^verbatim>\<open>++\<close>. They
    are 32-bit words read as signed values by \<open>sint\<close>: \<open>+ 1\<close> on the largest value
    \<open>2 ^ 31 - 1\<close> gives \<open>- 2 ^ 31\<close>, the two's complement wrap-around of the compiled
    program (for ISO C that one increment is a signed overflow).
  \<^item> The \<^verbatim>\<open>char\<close> flags are only ever assigned 0 or 1 and tested for truth: they are
    booleans.
  \<^item> The tables \<^verbatim>\<open>pgt\<close> and \<^verbatim>\<open>frt\<close> are lists, as long as the arrays the caller
    allocated. An access outside an array, and a division by zero, are undefined
    behaviour in C: here they are the error results \<open>OutOfBounds\<close> and \<open>DivByZero\<close>.
  \<^item> What the program prints is a list of events, kept in the field \<open>out\<close>, appended to
    in the order of the \<^verbatim>\<open>printf\<close> calls.
\<close>

unbundle bit_operations_syntax

type_synonym u32 = "32 word"

type_synonym i32 = "32 word"

datatype error = OutOfBounds | DivByZero

datatype variant = FIFO | LRU

datatype event =
    EvAccess char u32 int int int
  | EvPageFault int
  | EvChooseFifo int int
  | EvChooseLru int u32 int
  | EvWriteBack int
  | EvReplace int int int
  | EvOccupy int int
  | EvClockOverflow

record spage =
  present :: bool
  frame :: int
  modified :: bool
  referenced :: bool
  timestamp :: u32

record sframe =
  page :: int
  nextf :: int

record ssystem =
  pagsz :: int
  numpags :: int
  pgt :: "spage list"
  lru :: int
  clock :: u32
  numframes :: int
  frt :: "sframe list"
  listfree :: int
  listoccupied :: int
  numrefsread :: i32
  numrefswrite :: i32
  numpagefaults :: i32
  numpgwriteback :: i32
  numillegalrefs :: i32
  detailed :: bool
  out :: "event list"

definition in_range :: "'a list \<Rightarrow> int \<Rightarrow> bool" where
  "in_range xs i \<longleftrightarrow> 0 \<le> i \<and> i < int (length xs)"

definition emit :: "event \<Rightarrow> ssystem \<Rightarrow> ssystem" where
  "emit e S = S\<lparr>out := out S @ [e]\<rparr>"

definition pgt_upd :: "int \<Rightarrow> (spage \<Rightarrow> spage) \<Rightarrow> ssystem \<Rightarrow> ssystem" where
  "pgt_upd i f S = S\<lparr>pgt := (pgt S)[nat i := f (pgt S ! nat i)]\<rparr>"

definition frt_upd :: "int \<Rightarrow> (sframe \<Rightarrow> sframe) \<Rightarrow> ssystem \<Rightarrow> ssystem" where
  "frt_upd i f S = S\<lparr>frt := (frt S)[nat i := f (frt S ! nat i)]\<rparr>"

section \<open>Initialisation\<close>

definition zero_page :: spage where
  "zero_page = \<lparr>present = False, frame = 0, modified = False, referenced = False,
     timestamp = 0\<rparr>"

text \<open>The \<^verbatim>\<open>for\<close> loop of \<^verbatim>\<open>init_tables\<close>; it returns the table and the final \<open>i\<close>.\<close>

function init_loop :: "sframe list \<Rightarrow> int \<Rightarrow> int \<Rightarrow> error + (sframe list \<times> int)" where
  "init_loop fs i n =
     (if i < n - 1 then
        (if in_range fs i
         then init_loop (fs[nat i := (fs ! nat i)\<lparr>page := - 1, nextf := i + 1\<rparr>]) (i + 1) n
         else Inl OutOfBounds)
      else Inr (fs, i))"
  by pat_completeness auto
termination
  by (relation "measure (\<lambda>(fs, i, n). nat (n - 1 - i))") auto

declare init_loop.simps [simp del]

definition init_tables :: "ssystem \<Rightarrow> error + ssystem" where
  "init_tables S =
     (if numpags S < 0 \<or> int (length (pgt S)) < numpags S then Inl OutOfBounds
      else
        let S1 = S\<lparr>pgt := replicate (nat (numpags S)) zero_page @ drop (nat (numpags S)) (pgt S),
                   lru := - 1, clock := 0\<rparr>
        in case init_loop (frt S1) 0 (numframes S1) of
             Inl e \<Rightarrow> Inl e
           | Inr (fs, i) \<Rightarrow>
               if in_range fs i
               then Inr (S1\<lparr>frt := fs[nat i := (fs ! nat i)\<lparr>page := - 1, nextf := 0\<rparr>],
                            listfree := i, listoccupied := - 1\<rparr>)
               else Inl OutOfBounds)"

section \<open>Recording a reference\<close>

definition reference_page_fifo :: "ssystem \<Rightarrow> int \<Rightarrow> char \<Rightarrow> error + ssystem" where
  "reference_page_fifo S pg c =
     (if c = CHR ''R'' then Inr (S\<lparr>numrefsread := numrefsread S + 1\<rparr>)
      else if c = CHR ''W'' then
        (if in_range (pgt S) pg
         then Inr ((pgt_upd pg (\<lambda>e. e\<lparr>modified := True\<rparr>) S)
                     \<lparr>numrefswrite := numrefswrite S + 1\<rparr>)
         else Inl OutOfBounds)
      else Inr S)"

definition reference_page_lru :: "ssystem \<Rightarrow> int \<Rightarrow> char \<Rightarrow> error + ssystem" where
  "reference_page_lru S pg c =
     (let S1 = (if c = CHR ''R'' then S\<lparr>numrefsread := numrefsread S + 1\<rparr>
                else S\<lparr>numrefswrite := numrefswrite S + 1\<rparr>)
      in if \<not> in_range (pgt S1) pg then Inl OutOfBounds
         else
           let S2 = (if c = CHR ''W'' then pgt_upd pg (\<lambda>e. e\<lparr>modified := True\<rparr>) S1 else S1);
               S3 = pgt_upd pg (\<lambda>e. e\<lparr>timestamp := clock S2\<rparr>) S2;
               S4 = S3\<lparr>clock := clock S3 + 1\<rparr>
           in Inr (if clock S4 = 0 then emit EvClockOverflow S4 else S4))"

definition reference_page :: "variant \<Rightarrow> ssystem \<Rightarrow> int \<Rightarrow> char \<Rightarrow> error + ssystem" where
  "reference_page v S pg c =
     (case v of FIFO \<Rightarrow> reference_page_fifo S pg c | LRU \<Rightarrow> reference_page_lru S pg c)"

section \<open>Choosing a victim\<close>

definition choose_page_to_be_replaced_fifo :: "ssystem \<Rightarrow> error + (int \<times> ssystem)" where
  "choose_page_to_be_replaced_fifo S =
     (if \<not> in_range (frt S) (listoccupied S) then Inl OutOfBounds
      else
        let victim_frame = nextf (frt S ! nat (listoccupied S))
        in if \<not> in_range (frt S) victim_frame then Inl OutOfBounds
           else
             let victim_page = page (frt S ! nat victim_frame)
             in Inr (victim_page,
                     if detailed S then emit (EvChooseFifo victim_page victim_frame) S else S))"

text \<open>The scan of \<^verbatim>\<open>choose_page_to_be_replaced\<close> (LRU) over the page table \<open>ps\<close> with
  \<open>n\<close> pages, from index \<open>i\<close>, with the victim and the minimum found so far.\<close>

function lru_scan :: "spage list \<Rightarrow> int \<Rightarrow> int \<Rightarrow> int \<Rightarrow> u32 \<Rightarrow> error + (int \<times> u32)" where
  "lru_scan ps n i victim min_timestamp =
     (if i < n then
        (if \<not> in_range ps i then Inl OutOfBounds
         else if present (ps ! nat i) \<and> timestamp (ps ! nat i) < min_timestamp
         then lru_scan ps n (i + 1) i (timestamp (ps ! nat i))
         else lru_scan ps n (i + 1) victim min_timestamp)
      else Inr (victim, min_timestamp))"
  by pat_completeness auto
termination
  by (relation "measure (\<lambda>(ps, n, i, victim, min_timestamp). nat (n - i))") auto

declare lru_scan.simps [simp del]

definition choose_page_to_be_replaced_lru :: "ssystem \<Rightarrow> error + (int \<times> ssystem)" where
  "choose_page_to_be_replaced_lru S =
     (case lru_scan (pgt S) (numpags S) 0 (- 1) (NOT 0) of
        Inl e \<Rightarrow> Inl e
      | Inr (victim, min_timestamp) \<Rightarrow>
          if detailed S then
            (if in_range (pgt S) victim
             then Inr (victim,
                       emit (EvChooseLru victim (timestamp (pgt S ! nat victim))
                               (frame (pgt S ! nat victim))) S)
             else Inl OutOfBounds)
          else Inr (victim, S))"

definition choose_page_to_be_replaced :: "variant \<Rightarrow> ssystem \<Rightarrow> error + (int \<times> ssystem)" where
  "choose_page_to_be_replaced v S =
     (case v of FIFO \<Rightarrow> choose_page_to_be_replaced_fifo S
              | LRU \<Rightarrow> choose_page_to_be_replaced_lru S)"

section \<open>Replacing a page and occupying a free frame\<close>

definition replace_page_fifo :: "ssystem \<Rightarrow> int \<Rightarrow> int \<Rightarrow> error + ssystem" where
  "replace_page_fifo S victim newpage =
     (if \<not> in_range (pgt S) victim then Inl OutOfBounds
      else
        let fr = frame (pgt S ! nat victim);
            S1 = (if detailed S then
                    emit (EvReplace victim newpage fr)
                      (if modified (pgt S ! nat victim) then emit (EvWriteBack victim) S else S)
                  else S);
            S2 = (if modified (pgt S1 ! nat victim)
                  then S1\<lparr>numpgwriteback := numpgwriteback S1 + 1\<rparr> else S1);
            S3 = pgt_upd victim (\<lambda>e. e\<lparr>present := False, frame := - 1, modified := False\<rparr>) S2
        in if \<not> in_range (pgt S3) newpage then Inl OutOfBounds
           else
             let S4 = pgt_upd newpage
                        (\<lambda>e. e\<lparr>present := True, frame := fr, modified := False,
                               referenced := False, timestamp := 0\<rparr>) S3
             in if \<not> in_range (frt S4) fr then Inl OutOfBounds
                else Inr ((frt_upd fr (\<lambda>f. f\<lparr>page := newpage\<rparr>) S4)\<lparr>listoccupied := fr\<rparr>))"

definition replace_page_lru :: "ssystem \<Rightarrow> int \<Rightarrow> int \<Rightarrow> error + ssystem" where
  "replace_page_lru S victim newpage =
     (if \<not> in_range (pgt S) victim then Inl OutOfBounds
      else
        let fr = frame (pgt S ! nat victim);
            S1 = (if modified (pgt S ! nat victim)
                  then (if detailed S then emit (EvWriteBack victim) S else S)
                         \<lparr>numpgwriteback := numpgwriteback S + 1\<rparr>
                  else S);
            S2 = (if detailed S1 then emit (EvReplace victim newpage fr) S1 else S1);
            S3 = pgt_upd victim (\<lambda>e. e\<lparr>present := False\<rparr>) S2
        in if \<not> in_range (pgt S3) newpage then Inl OutOfBounds
           else
             let S4 = pgt_upd newpage
                        (\<lambda>e. e\<lparr>present := True, frame := fr, modified := False\<rparr>) S3
             in if \<not> in_range (frt S4) fr then Inl OutOfBounds
                else Inr (frt_upd fr (\<lambda>f. f\<lparr>page := newpage\<rparr>) S4))"

definition replace_page :: "variant \<Rightarrow> ssystem \<Rightarrow> int \<Rightarrow> int \<Rightarrow> error + ssystem" where
  "replace_page v S victim newpage =
     (case v of FIFO \<Rightarrow> replace_page_fifo S victim newpage
              | LRU \<Rightarrow> replace_page_lru S victim newpage)"

definition occupy_free_frame_fifo :: "ssystem \<Rightarrow> int \<Rightarrow> int \<Rightarrow> error + ssystem" where
  "occupy_free_frame_fifo S fr pg =
     (if \<not> in_range (pgt S) pg then Inl OutOfBounds
      else
        let S1 = pgt_upd pg
                   (\<lambda>e. e\<lparr>present := True, frame := fr, modified := False,
                          referenced := False, timestamp := 0\<rparr>) S
        in if \<not> in_range (frt S1) fr then Inl OutOfBounds
           else
             let S2 = frt_upd fr (\<lambda>f. f\<lparr>page := pg\<rparr>) S1
             in if listoccupied S2 = - 1 then
                  Inr (let S3 = (frt_upd fr (\<lambda>f. f\<lparr>nextf := fr\<rparr>) S2)\<lparr>listoccupied := fr\<rparr>
                       in if detailed S3 then emit (EvOccupy pg fr) S3 else S3)
                else if \<not> in_range (frt S2) (listoccupied S2) then Inl OutOfBounds
                else
                  Inr (let S3 = frt_upd fr
                                  (\<lambda>f. f\<lparr>nextf := nextf (frt S2 ! nat (listoccupied S2))\<rparr>) S2;
                           S4 = frt_upd (listoccupied S3) (\<lambda>f. f\<lparr>nextf := fr\<rparr>) S3;
                           S5 = S4\<lparr>listoccupied := fr\<rparr>
                       in if detailed S5 then emit (EvOccupy pg fr) S5 else S5))"

definition occupy_free_frame_lru :: "ssystem \<Rightarrow> int \<Rightarrow> int \<Rightarrow> error + ssystem" where
  "occupy_free_frame_lru S fr pg =
     (let S0 = (if detailed S then emit (EvOccupy pg fr) S else S)
      in if \<not> in_range (pgt S0) pg then Inl OutOfBounds
         else
           let S1 = pgt_upd pg
                      (\<lambda>e. e\<lparr>present := True, frame := fr, modified := False,
                             referenced := False, timestamp := 0\<rparr>) S0
           in if \<not> in_range (frt S1) fr then Inl OutOfBounds
              else Inr (frt_upd fr (\<lambda>f. f\<lparr>page := pg\<rparr>) S1))"

definition occupy_free_frame :: "variant \<Rightarrow> ssystem \<Rightarrow> int \<Rightarrow> int \<Rightarrow> error + ssystem" where
  "occupy_free_frame v S fr pg =
     (case v of FIFO \<Rightarrow> occupy_free_frame_fifo S fr pg
              | LRU \<Rightarrow> occupy_free_frame_lru S fr pg)"

section \<open>The page fault handler and the MMU\<close>

text \<open>\<^verbatim>\<open>virtual_addr / S->pagsz\<close> and \<^verbatim>\<open>virtual_addr % S->pagsz\<close>: the page size is
  converted to \<^verbatim>\<open>unsigned\<close>, the division is unsigned, the result is stored in an
  \<^verbatim>\<open>int\<close>.\<close>

definition page_of :: "ssystem \<Rightarrow> u32 \<Rightarrow> int" where
  "page_of S va = sint (va div word_of_int (pagsz S))"

definition offset_of :: "ssystem \<Rightarrow> u32 \<Rightarrow> int" where
  "offset_of S va = sint (va mod word_of_int (pagsz S))"

definition handle_page_fault :: "variant \<Rightarrow> ssystem \<Rightarrow> u32 \<Rightarrow> error + ssystem" where
  "handle_page_fault v S va =
     (let S1 = S\<lparr>numpagefaults := numpagefaults S + 1\<rparr>
      in if (word_of_int (pagsz S1) :: u32) = 0 then Inl DivByZero
         else
           let pg = page_of S1 va;
               S2 = (if detailed S1 then emit (EvPageFault pg) S1 else S1)
           in if listfree S2 \<noteq> - 1 then
                (let last = listfree S2
                 in if \<not> in_range (frt S2) last then Inl OutOfBounds
                    else
                      let fr = nextf (frt S2 ! nat last)
                      in if fr = last then occupy_free_frame v (S2\<lparr>listfree := - 1\<rparr>) fr pg
                         else if \<not> in_range (frt S2) fr then Inl OutOfBounds
                         else occupy_free_frame v
                                (frt_upd last (\<lambda>f. f\<lparr>nextf := nextf (frt S2 ! nat fr)\<rparr>) S2) fr pg)
              else
                (case choose_page_to_be_replaced v S2 of
                   Inl e \<Rightarrow> Inl e
                 | Inr (victim, S3) \<Rightarrow> replace_page v S3 victim pg))"

definition sim_mmu :: "variant \<Rightarrow> ssystem \<Rightarrow> u32 \<Rightarrow> char \<Rightarrow> error + (u32 \<times> ssystem)" where
  "sim_mmu v S va c =
     (if (word_of_int (pagsz S) :: u32) = 0 then Inl DivByZero
      else
        let pg = page_of S va;
            offset = offset_of S va
        in if pg < 0 \<or> pg \<ge> numpags S
           then Inr (NOT 0, S\<lparr>numillegalrefs := numillegalrefs S + 1\<rparr>)
           else if \<not> in_range (pgt S) pg then Inl OutOfBounds
           else
             (case (if \<not> present (pgt S ! nat pg) then handle_page_fault v S va else Inr S) of
                Inl e \<Rightarrow> Inl e
              | Inr S1 \<Rightarrow>
                  if \<not> in_range (pgt S1) pg then Inl OutOfBounds
                  else
                    let fr = frame (pgt S1 ! nat pg);
                        physical_addr = (word_of_int (fr * pagsz S1 + offset) :: u32)
                    in case reference_page v S1 pg c of
                         Inl e \<Rightarrow> Inl e
                       | Inr S2 \<Rightarrow>
                           Inr (physical_addr,
                                if detailed S2 then emit (EvAccess c va pg fr offset) S2
                                else S2)))"

text \<open>A trace of accesses, each translated by \<open>sim_mmu\<close> in turn, as the driver does.\<close>

fun run :: "variant \<Rightarrow> ssystem \<Rightarrow> (u32 \<times> char) list \<Rightarrow> error + ssystem" where
  "run v S [] = Inr S"
| "run v S ((va, c) # xs) =
     (case sim_mmu v S va c of Inl e \<Rightarrow> Inl e | Inr (pa, S') \<Rightarrow> run v S' xs)"

section \<open>The free list, the occupied frames and the shape of the tables\<close>

text \<open>
  A circular list of frames is given by the index \<open>lastf\<close> of its last member (-1 when
  the list is empty); its first member is \<open>frt[lastf].next\<close>. \<open>walk\<close> follows the
  \<open>next\<close> links from \<open>cur\<close> until the link leads back to \<open>start\<close>, for at most \<open>m\<close>
  frames, as the loop of \<^verbatim>\<open>print_replacement_report\<close> (FIFO) does over the occupied frames.
\<close>

fun walk :: "sframe list \<Rightarrow> int \<Rightarrow> int \<Rightarrow> nat \<Rightarrow> int list" where
  "walk fs start cur 0 = []"
| "walk fs start cur (Suc m) =
     cur # (if nextf (fs ! nat cur) = start then []
            else walk fs start (nextf (fs ! nat cur)) m)"

definition circular_list :: "sframe list \<Rightarrow> int \<Rightarrow> int \<Rightarrow> int list" where
  "circular_list fs lastf n =
     (if lastf = - 1 then []
      else walk fs (nextf (fs ! nat lastf)) (nextf (fs ! nat lastf)) (nat n))"

definition free_frames :: "ssystem \<Rightarrow> int list" where
  "free_frames S = circular_list (frt S) (listfree S) (numframes S)"

text \<open>The occupied frames: for FIFO the members of the list of occupied frames; for LRU,
  which keeps no such list, the frames that hold a page (\<^verbatim>\<open>print_frames_table\<close> shows a
  frame as empty when its \<open>page\<close> is -1).\<close>

definition occupied_frames :: "variant \<Rightarrow> ssystem \<Rightarrow> int list" where
  "occupied_frames v S =
     (case v of
        FIFO \<Rightarrow> circular_list (frt S) (listoccupied S) (numframes S)
      | LRU \<Rightarrow> filter (\<lambda>f. page (frt S ! nat f) \<noteq> - 1) [0..numframes S - 1])"

text \<open>
  The shape of the tables in the states the simulator reaches. Frames are taken from
  the free list in the order 0, 1, 2, ... and never return to it, so the frames below
  \<open>used S\<close> are occupied and the others are free.
\<close>

definition used :: "ssystem \<Rightarrow> int" where
  "used S = (if listfree S = - 1 then numframes S else nextf (frt S ! nat (listfree S)))"

definition inv_sizes :: "ssystem \<Rightarrow> bool" where
  "inv_sizes S \<longleftrightarrow>
     0 < numframes S \<and> numframes S \<le> int (length (frt S)) \<and>
     0 \<le> numpags S \<and> numpags S \<le> int (length (pgt S)) \<and>
     0 \<le> used S \<and> used S \<le> numframes S"

definition inv_free :: "ssystem \<Rightarrow> bool" where
  "inv_free S \<longleftrightarrow>
     (listfree S \<noteq> - 1 \<longrightarrow>
        listfree S = numframes S - 1 \<and> used S < numframes S \<and>
        (\<forall>i\<in>{used S..<numframes S - 1}. nextf (frt S ! nat i) = i + 1) \<and>
        (\<forall>i\<in>{used S..<numframes S}. page (frt S ! nat i) = - 1))"

definition inv_map :: "ssystem \<Rightarrow> bool" where
  "inv_map S \<longleftrightarrow>
     (\<forall>i\<in>{0..<used S}.
        0 \<le> page (frt S ! nat i) \<and> page (frt S ! nat i) < numpags S \<and>
        present (pgt S ! nat (page (frt S ! nat i))) \<and>
        frame (pgt S ! nat (page (frt S ! nat i))) = i) \<and>
     (\<forall>p\<in>{0..<numpags S}.
        present (pgt S ! nat p) \<longrightarrow>
          0 \<le> frame (pgt S ! nat p) \<and> frame (pgt S ! nat p) < used S \<and>
          page (frt S ! nat (frame (pgt S ! nat p))) = p)"

definition inv_occ :: "ssystem \<Rightarrow> bool" where
  "inv_occ S \<longleftrightarrow>
     (if used S = 0 then listoccupied S = - 1
      else 0 \<le> listoccupied S \<and> listoccupied S < used S \<and>
           (used S < numframes S \<longrightarrow> listoccupied S = used S - 1) \<and>
           (\<forall>i\<in>{0..<used S - 1}. nextf (frt S ! nat i) = i + 1) \<and>
           nextf (frt S ! nat (used S - 1)) = 0)"

definition sys_inv :: "variant \<Rightarrow> ssystem \<Rightarrow> bool" where
  "sys_inv v S \<longleftrightarrow> inv_sizes S \<and> inv_free S \<and> inv_map S \<and> (v = FIFO \<longrightarrow> inv_occ S)"

section \<open>Example states\<close>

text \<open>A system structure before \<open>init_tables\<close>: two frames, four pages of 100 bytes,
  tables with arbitrary contents, counters at zero.\<close>

definition S_raw :: ssystem where
  "S_raw = \<lparr>pagsz = 100, numpags = 4,
     pgt = [\<lparr>present = True, frame = 7, modified = True, referenced = True, timestamp = 9\<rparr>,
            \<lparr>present = True, frame = 7, modified = True, referenced = True, timestamp = 9\<rparr>,
            \<lparr>present = True, frame = 7, modified = True, referenced = True, timestamp = 9\<rparr>,
            \<lparr>present = True, frame = 7, modified = True, referenced = True, timestamp = 9\<rparr>],
     lru = 0, clock = 7, numframes = 2,
     frt = [\<lparr>page = 5, nextf = 9\<rparr>, \<lparr>page = 5, nextf = 9\<rparr>], listfree = 3, listoccupied = 3,
     numrefsread = 0, numrefswrite = 0, numpagefaults = 0, numpgwriteback = 0,
     numillegalrefs = 0, detailed = False, out = []\<rparr>"

text \<open>The same system after \<open>init_tables\<close>.\<close>

definition S_init :: ssystem where
  "S_init = \<lparr>pagsz = 100, numpags = 4, pgt = [zero_page, zero_page, zero_page, zero_page],
     lru = - 1, clock = 0, numframes = 2,
     frt = [\<lparr>page = - 1, nextf = 1\<rparr>, \<lparr>page = - 1, nextf = 0\<rparr>],
     listfree = 1, listoccupied = - 1,
     numrefsread = 0, numrefswrite = 0, numpagefaults = 0, numpgwriteback = 0,
     numillegalrefs = 0, detailed = False, out = []\<rparr>"

text \<open>An initialised LRU system with one frame and two pages of 100 bytes, whose read
  counter, which \<open>init_tables\<close> does not touch, holds the least \<^verbatim>\<open>int\<close>.\<close>

definition S_one :: ssystem where
  "S_one = \<lparr>pagsz = 100, numpags = 2, pgt = [zero_page, zero_page],
     lru = - 1, clock = 0, numframes = 1,
     frt = [\<lparr>page = - 1, nextf = 0\<rparr>], listfree = 0, listoccupied = - 1,
     numrefsread = - 2147483648, numrefswrite = 0, numpagefaults = 0, numpgwriteback = 0,
     numillegalrefs = 0, detailed = False, out = []\<rparr>"

text \<open>\<open>S_one\<close> after reading address 0 (page 0).\<close>

definition S_one1 :: ssystem where
  "S_one1 = \<lparr>pagsz = 100, numpags = 2,
     pgt = [\<lparr>present = True, frame = 0, modified = False, referenced = False,
              timestamp = 0\<rparr>, zero_page],
     lru = - 1, clock = 1, numframes = 1,
     frt = [\<lparr>page = 0, nextf = 0\<rparr>], listfree = - 1, listoccupied = - 1,
     numrefsread = - 2147483647, numrefswrite = 0, numpagefaults = 1, numpgwriteback = 0,
     numillegalrefs = 0, detailed = False, out = []\<rparr>"

text \<open>\<open>S_one\<close> after \<open>2 ^ 32 - 1\<close> reads of page 0: the clock is at its maximum.\<close>

definition S_wrap :: ssystem where
  "S_wrap = \<lparr>pagsz = 100, numpags = 2,
     pgt = [\<lparr>present = True, frame = 0, modified = False, referenced = False,
              timestamp = 4294967294\<rparr>, zero_page],
     lru = - 1, clock = 4294967295, numframes = 1,
     frt = [\<lparr>page = 0, nextf = 0\<rparr>], listfree = - 1, listoccupied = - 1,
     numrefsread = 2147483647, numrefswrite = 0, numpagefaults = 1, numpgwriteback = 0,
     numillegalrefs = 0, detailed = False, out = []\<rparr>"

text \<open>The FIFO system \<open>S_init\<close> after reading address 0 (page 0).\<close>

definition S_fifo1 :: ssystem where
  "S_fifo1 = \<lparr>pagsz = 100, numpags = 4,
     pgt = [\<lparr>present = True, frame = 0, modified = False, referenced = False, timestamp = 0\<rparr>,
            zero_page, zero_page, zero_page],
     lru = - 1, clock = 0, numframes = 2,
     frt = [\<lparr>page = 0, nextf = 0\<rparr>, \<lparr>page = - 1, nextf = 1\<rparr>],
     listfree = 1, listoccupied = 0,
     numrefsread = 1, numrefswrite = 0, numpagefaults = 1, numpgwriteback = 0,
     numillegalrefs = 0, detailed = False, out = []\<rparr>"

text \<open>The FIFO system \<open>S_init\<close> after reading addresses 0 and 100 (pages 0, 1).\<close>

definition S_fifo2 :: ssystem where
  "S_fifo2 = \<lparr>pagsz = 100, numpags = 4,
     pgt = [\<lparr>present = True, frame = 0, modified = False, referenced = False, timestamp = 0\<rparr>,
            \<lparr>present = True, frame = 1, modified = False, referenced = False, timestamp = 0\<rparr>,
            zero_page, zero_page],
     lru = - 1, clock = 0, numframes = 2,
     frt = [\<lparr>page = 0, nextf = 1\<rparr>, \<lparr>page = 1, nextf = 0\<rparr>],
     listfree = - 1, listoccupied = 1,
     numrefsread = 2, numrefswrite = 0, numpagefaults = 2, numpgwriteback = 0,
     numillegalrefs = 0, detailed = False, out = []\<rparr>"

text \<open>The FIFO system \<open>S_init\<close> after reading addresses 0, 100 and 200 (pages 0, 1, 2).\<close>

definition S_fifo3 :: ssystem where
  "S_fifo3 = \<lparr>pagsz = 100, numpags = 4,
     pgt = [\<lparr>present = False, frame = - 1, modified = False, referenced = False,
              timestamp = 0\<rparr>,
            \<lparr>present = True, frame = 1, modified = False, referenced = False, timestamp = 0\<rparr>,
            \<lparr>present = True, frame = 0, modified = False, referenced = False, timestamp = 0\<rparr>,
            zero_page],
     lru = - 1, clock = 0, numframes = 2,
     frt = [\<lparr>page = 2, nextf = 1\<rparr>, \<lparr>page = 1, nextf = 0\<rparr>],
     listfree = - 1, listoccupied = 0,
     numrefsread = 3, numrefswrite = 0, numpagefaults = 3, numpgwriteback = 0,
     numillegalrefs = 0, detailed = False, out = []\<rparr>"

text \<open>The LRU system \<open>S_init\<close> after the accesses R0, W1, W0 (addresses 0, 100, 0): both
  frames are occupied, pages 0 and 1 are modified.\<close>

definition S_lru_full :: ssystem where
  "S_lru_full = \<lparr>pagsz = 100, numpags = 4,
     pgt = [\<lparr>present = True, frame = 0, modified = True, referenced = False, timestamp = 2\<rparr>,
            \<lparr>present = True, frame = 1, modified = True, referenced = False, timestamp = 1\<rparr>,
            zero_page, zero_page],
     lru = - 1, clock = 3, numframes = 2,
     frt = [\<lparr>page = 0, nextf = 1\<rparr>, \<lparr>page = 1, nextf = 1\<rparr>],
     listfree = - 1, listoccupied = - 1,
     numrefsread = 1, numrefswrite = 2, numpagefaults = 2, numpgwriteback = 0,
     numillegalrefs = 0, detailed = False, out = []\<rparr>"


text \<open>\<open>S_lru_full\<close> after the whole translation of address 200 for reading.\<close>

definition S_lru_final :: ssystem where
  "S_lru_final = \<lparr>pagsz = 100, numpags = 4,
     pgt = [\<lparr>present = True, frame = 0, modified = True, referenced = False, timestamp = 2\<rparr>,
            \<lparr>present = False, frame = 1, modified = True, referenced = False, timestamp = 1\<rparr>,
            \<lparr>present = True, frame = 1, modified = False, referenced = False, timestamp = 3\<rparr>,
            zero_page],
     lru = - 1, clock = 4, numframes = 2,
     frt = [\<lparr>page = 0, nextf = 1\<rparr>, \<lparr>page = 2, nextf = 1\<rparr>],
     listfree = - 1, listoccupied = - 1,
     numrefsread = 2, numrefswrite = 2, numpagefaults = 3, numpgwriteback = 1,
     numillegalrefs = 0, detailed = False, out = []\<rparr>"

text \<open>\<open>S_lru_final\<close> after address 200 is translated again, for writing.\<close>

definition S_lru_again :: ssystem where
  "S_lru_again = \<lparr>pagsz = 100, numpags = 4,
     pgt = [\<lparr>present = True, frame = 0, modified = True, referenced = False, timestamp = 2\<rparr>,
            \<lparr>present = False, frame = 1, modified = True, referenced = False, timestamp = 1\<rparr>,
            \<lparr>present = True, frame = 1, modified = True, referenced = False, timestamp = 4\<rparr>,
            zero_page],
     lru = - 1, clock = 5, numframes = 2,
     frt = [\<lparr>page = 0, nextf = 1\<rparr>, \<lparr>page = 2, nextf = 1\<rparr>],
     listfree = - 1, listoccupied = - 1,
     numrefsread = 2, numrefswrite = 3, numpagefaults = 3, numpgwriteback = 1,
     numillegalrefs = 0, detailed = False, out = []\<rparr>"

text \<open>\<open>S_wrap\<close> after a write to page 0: the clock has wrapped to 0 and the only
  resident page has the largest timestamp.\<close>

definition S_stuck :: ssystem where
  "S_stuck = \<lparr>pagsz = 100, numpags = 2,
     pgt = [\<lparr>present = True, frame = 0, modified = True, referenced = False,
              timestamp = 4294967295\<rparr>, zero_page],
     lru = - 1, clock = 0, numframes = 1,
     frt = [\<lparr>page = 0, nextf = 0\<rparr>], listfree = - 1, listoccupied = - 1,
     numrefsread = 2147483647, numrefswrite = 1, numpagefaults = 1, numpgwriteback = 0,
     numillegalrefs = 0, detailed = False, out = [EvClockOverflow]\<rparr>"

section \<open>Intermediate states of the page fault handler\<close>

text \<open>The system after \<open>handle_page_fault\<close> has counted the fault and printed its
  message.\<close>

definition faulted :: "ssystem \<Rightarrow> u32 \<Rightarrow> ssystem" where
  "faulted S va =
     (let S1 = S\<lparr>numpagefaults := numpagefaults S + 1\<rparr>
      in if detailed S1 then emit (EvPageFault (page_of S1 va)) S1 else S1)"

text \<open>The system handed to \<open>occupy_free_frame\<close>: the first free frame is taken off the
  free list.\<close>

definition unlinked :: "ssystem \<Rightarrow> u32 \<Rightarrow> ssystem" where
  "unlinked S va =
     (let S1 = S\<lparr>numpagefaults := numpagefaults S + 1\<rparr>;
          S2 = (if detailed S1 then emit (EvPageFault (page_of S1 va)) S1 else S1)
      in if used S = listfree S then S2\<lparr>listfree := - 1\<rparr>
         else frt_upd (listfree S)
                (\<lambda>f. f\<lparr>nextf := nextf (frt S2 ! nat (used S))\<rparr>) S2)"



section \<open>Basic facts\<close>

text \<open>The increment of a counter, read as a signed value.\<close>

lemma sint_incr:
  fixes x :: i32
  assumes "sint x < 2147483647"
  shows "sint (x + 1) = sint x + 1"
proof -
  have l: "- 2147483648 \<le> sint x" using sint_ge [of x] by simp
  have "sint (x + 1) = signed_take_bit 31 (sint x + 1)"
    by (simp add: sint_word_ariths)
  also have "\<dots> = sint x + 1"
    using l assms by (simp add: signed_take_bit_int_eq_self)
  finally show ?thesis .
qed

lemma sint_wrap: "sint (2147483647 + 1 :: i32) = - 2147483648"
  by simp

lemma sframe_upd_all [simp]: "(f::sframe)\<lparr>page := a, nextf := b\<rparr> = \<lparr>page = a, nextf = b\<rparr>"
  by (cases f) simp

lemma all_ones_u32: "unat (- 1 :: u32) = 4294967295"
  by (simp add: unsigned_minus_1_eq_mask mask_eq_exp_minus_1)

lemma unat_suc_u32: "unat (x + 1 :: u32) = (unat x + 1) mod 2 ^ 32"
  by (simp add: unat_word_ariths)

subsection \<open>The initialisation loop\<close>

lemma init_loop_ok:
  "0 \<le> i \<Longrightarrow> n \<le> int (length fs) \<Longrightarrow> i \<le> n - 1 \<Longrightarrow>
   \<exists>fs'. init_loop fs i n = Inr (fs', n - 1) \<and> length fs' = length fs \<and>
     (\<forall>j. i \<le> int j \<and> int j < n - 1 \<longrightarrow> fs' ! j = \<lparr>page = - 1, nextf = int j + 1\<rparr>) \<and>
     (\<forall>j. int j < i \<or> n - 1 \<le> int j \<longrightarrow> fs' ! j = fs ! j)"
proof (induction fs i n rule: init_loop.induct)
  case (1 fs i n)
  show ?case
  proof (cases "i < n - 1")
    case False
    with "1.prems" have "i = n - 1" by simp
    then show ?thesis by (subst init_loop.simps) simp
  next
    case True
    with "1.prems" have r: "in_range fs i" by (simp add: in_range_def)
    let ?fs1 = "fs[nat i := (fs ! nat i)\<lparr>page := - 1, nextf := i + 1\<rparr>]"
    from "1.IH" [OF True r] "1.prems" True
    obtain fs' where h: "init_loop ?fs1 (i + 1) n = Inr (fs', n - 1)" "length fs' = length fs"
      "\<forall>j. i + 1 \<le> int j \<and> int j < n - 1 \<longrightarrow> fs' ! j = \<lparr>page = - 1, nextf = int j + 1\<rparr>"
      "\<forall>j. int j < i + 1 \<or> n - 1 \<le> int j \<longrightarrow> fs' ! j = ?fs1 ! j"
      by auto
    have eq: "init_loop fs i n = Inr (fs', n - 1)"
      using True r h(1) by (subst init_loop.simps) simp
    have a: "fs' ! j = \<lparr>page = - 1, nextf = int j + 1\<rparr>" if "i \<le> int j" "int j < n - 1" for j
    proof (cases "int j = i")
      case True
      then have "nat i = j" by simp
      with h(4) that True "1.prems" show ?thesis by (auto simp: nth_list_update)
    next
      case False
      with that h(3) show ?thesis by simp
    qed
    have b: "fs' ! j = fs ! j" if "int j < i \<or> n - 1 \<le> int j" for j
    proof -
      have "0 \<le> i" using "1.prems" by simp
      then have "nat i \<noteq> j" using that True by (cases "int j < i") auto
      with h(4) that show ?thesis by auto
    qed
    from eq h(2) a b show ?thesis by blast
  qed
qed

lemma init_tables_ok:
  assumes "0 \<le> numpags S" "numpags S \<le> int (length (pgt S))"
    and "0 < numframes S" "numframes S \<le> int (length (frt S))"
  shows "\<exists>fs. init_tables S =
           Inr (S\<lparr>pgt := replicate (nat (numpags S)) zero_page @ drop (nat (numpags S)) (pgt S),
                  lru := - 1, clock := 0, frt := fs, listfree := numframes S - 1,
                  listoccupied := - 1\<rparr>) \<and>
         length fs = length (frt S) \<and>
         (\<forall>j. int j < numframes S - 1 \<longrightarrow> fs ! j = \<lparr>page = - 1, nextf = int j + 1\<rparr>) \<and>
         fs ! nat (numframes S - 1) = \<lparr>page = - 1, nextf = 0\<rparr> \<and>
         (\<forall>j. numframes S \<le> int j \<longrightarrow> fs ! j = frt S ! j)"
proof -
  from init_loop_ok [of 0 "numframes S" "frt S"] assms
  obtain fs' where h: "init_loop (frt S) 0 (numframes S) = Inr (fs', numframes S - 1)"
      "length fs' = length (frt S)"
      "\<forall>j. int j < numframes S - 1 \<longrightarrow> fs' ! j = \<lparr>page = - 1, nextf = int j + 1\<rparr>"
      "\<forall>j. numframes S - 1 \<le> int j \<longrightarrow> fs' ! j = frt S ! j"
    by auto
  let ?fs = "fs'[nat (numframes S - 1) := \<lparr>page = - 1, nextf = 0\<rparr>]"
  have "init_tables S =
           Inr (S\<lparr>pgt := replicate (nat (numpags S)) zero_page @ drop (nat (numpags S)) (pgt S),
                  lru := - 1, clock := 0, frt := ?fs, listfree := numframes S - 1,
                  listoccupied := - 1\<rparr>)"
    using assms h(1,2) by (simp add: init_tables_def in_range_def)
  moreover have "length ?fs = length (frt S)" using h(2) by simp
  moreover have "\<forall>j. int j < numframes S - 1 \<longrightarrow> ?fs ! j = \<lparr>page = - 1, nextf = int j + 1\<rparr>"
    using h(3) by (auto simp: nth_list_update)
  moreover have "?fs ! nat (numframes S - 1) = \<lparr>page = - 1, nextf = 0\<rparr>"
    using assms h(2) by simp
  moreover have "\<forall>j. numframes S \<le> int j \<longrightarrow> ?fs ! j = frt S ! j"
    using h(4) assms by (auto simp: nth_list_update)
  ultimately show ?thesis by blast
qed

lemma init_tables_S_raw: "init_tables S_raw = Inr S_init"
  by (simp add: init_tables_def S_raw_def S_init_def init_loop.simps in_range_def
      eval_nat_numeral)

section \<open>What the operations return\<close>

lemmas upd_defs = pgt_upd_def frt_upd_def emit_def

lemma reference_page_ok:
  assumes "in_range (pgt S) pg"
  shows "\<exists>S'. reference_page v S pg c = Inr S' \<and> pagsz S' = pagsz S \<and> numpags S' = numpags S \<and>
     length (pgt S') = length (pgt S) \<and> numpagefaults S' = numpagefaults S \<and>
     detailed S' = detailed S \<and>
     numframes S' = numframes S \<and> frt S' = frt S \<and> listfree S' = listfree S \<and>
     listoccupied S' = listoccupied S \<and>
     (\<forall>j. present (pgt S' ! j) = present (pgt S ! j) \<and> frame (pgt S' ! j) = frame (pgt S ! j))"
  using assms
  by (cases v)
     (auto simp: reference_page_def reference_page_fifo_def reference_page_lru_def Let_def
        upd_defs in_range_def nth_list_update split: if_splits)

lemma occupy_free_frame_Inr:
  assumes "occupy_free_frame v S fr pg = Inr S'"
  shows "in_range (pgt S) pg \<and> pagsz S' = pagsz S \<and> numpags S' = numpags S \<and>
     numframes S' = numframes S \<and> clock S' = clock S \<and>
     numpagefaults S' = numpagefaults S \<and> detailed S' = detailed S \<and>
     pgt S' = (pgt S)[nat pg := (pgt S ! nat pg)\<lparr>present := True, frame := fr,
        modified := False, referenced := False, timestamp := 0\<rparr>]"
  using assms
  by (cases v)
     (auto simp: occupy_free_frame_def occupy_free_frame_fifo_def occupy_free_frame_lru_def
        Let_def upd_defs split: if_splits)

lemma replace_page_Inr:
  assumes "replace_page v S victim pg = Inr S'"
  shows "in_range (pgt S) pg \<and> pagsz S' = pagsz S \<and> numpags S' = numpags S \<and>
     numframes S' = numframes S \<and> clock S' = clock S \<and>
     numpagefaults S' = numpagefaults S \<and> detailed S' = detailed S \<and>
     length (pgt S') = length (pgt S) \<and>
     present (pgt S' ! nat pg) \<and> frame (pgt S' ! nat pg) = frame (pgt S ! nat victim)"
  using assms
  by (cases v)
     (auto simp: replace_page_def replace_page_fifo_def replace_page_lru_def
        Let_def upd_defs in_range_def split: if_splits)

lemma choose_Inr:
  assumes "choose_page_to_be_replaced v S = Inr (victim, S')"
  shows "pagsz S' = pagsz S \<and> numpags S' = numpags S \<and> pgt S' = pgt S \<and> lru S' = lru S \<and>
     clock S' = clock S \<and> numframes S' = numframes S \<and> frt S' = frt S \<and>
     listfree S' = listfree S \<and> listoccupied S' = listoccupied S \<and>
     numrefsread S' = numrefsread S \<and> numrefswrite S' = numrefswrite S \<and>
     numpagefaults S' = numpagefaults S \<and> numpgwriteback S' = numpgwriteback S \<and>
     numillegalrefs S' = numillegalrefs S \<and> detailed S' = detailed S"
  using assms
  by (cases v)
     (auto simp: choose_page_to_be_replaced_def choose_page_to_be_replaced_fifo_def
        choose_page_to_be_replaced_lru_def Let_def upd_defs
        split: if_splits sum.splits prod.splits)

lemma handle_page_fault_Inr:
  assumes "handle_page_fault v S va = Inr S'"
  shows "in_range (pgt S) (page_of S va) \<and> pagsz S' = pagsz S \<and> numpags S' = numpags S \<and>
     numframes S' = numframes S \<and> clock S' = clock S \<and>
     numpagefaults S' = numpagefaults S + 1 \<and> detailed S' = detailed S \<and>
     length (pgt S') = length (pgt S) \<and> present (pgt S' ! nat (page_of S va))"
proof -
  let ?S1 = "S\<lparr>numpagefaults := numpagefaults S + 1\<rparr>"
  let ?pg = "page_of S va"
  let ?S2 = "if detailed S then emit (EvPageFault ?pg) ?S1 else ?S1"
  have p: "page_of ?S1 va = ?pg" by (simp add: page_of_def)
  show ?thesis
  proof (cases "listfree S = - 1")
    case True
    with assms obtain victim S3 where c: "choose_page_to_be_replaced v ?S2 = Inr (victim, S3)"
      and r: "replace_page v S3 victim ?pg = Inr S'"
      by (auto simp: handle_page_fault_def Let_def p emit_def split: if_splits sum.splits)
    from choose_Inr [OF c] replace_page_Inr [OF r] show ?thesis
      by (auto simp: emit_def in_range_def split: if_splits)
  next
    case False
    with assms obtain S3 fr where o: "occupy_free_frame v S3 fr ?pg = Inr S'"
      and s: "pgt S3 = pgt S" "pagsz S3 = pagsz S" "numpags S3 = numpags S"
        "numpagefaults S3 = numpagefaults S + 1" "detailed S3 = detailed S"
        "numframes S3 = numframes S" "clock S3 = clock S"
      by (auto simp: handle_page_fault_def Let_def p upd_defs split: if_splits)
    from occupy_free_frame_Inr [OF o] s show ?thesis
      by (auto simp: in_range_def)
  qed
qed

section \<open>The invariant is kept\<close>

lemma nth_upd_int:
  "0 \<le> i \<Longrightarrow> 0 \<le> j \<Longrightarrow> i < int (length xs) \<Longrightarrow>
   xs[nat i := x] ! nat j = (if i = j then x else xs ! nat j)"
  by (auto simp: nth_list_update)

lemma sys_inv_cong:
  assumes "numframes S' = numframes S" "numpags S' = numpags S" "frt S' = frt S"
    "listfree S' = listfree S" "listoccupied S' = listoccupied S"
    "length (pgt S') = length (pgt S)"
    "\<forall>j. present (pgt S' ! j) = present (pgt S ! j) \<and> frame (pgt S' ! j) = frame (pgt S ! j)"
  shows "sys_inv v S' = sys_inv v S"
proof -
  have u: "used S' = used S" using assms by (simp add: used_def)
  have "inv_sizes S' = inv_sizes S" using assms u by (simp add: inv_sizes_def)
  moreover have "inv_free S' = inv_free S" using assms u by (simp add: inv_free_def)
  moreover have "inv_occ S' = inv_occ S" using assms u by (simp add: inv_occ_def)
  moreover have "inv_map S' = inv_map S"
  proof -
    have a: "present (pgt S' ! nat q) = present (pgt S ! nat q)"
        "frame (pgt S' ! nat q) = frame (pgt S ! nat q)" for q
      using assms(7) by simp_all
    show ?thesis unfolding inv_map_def u assms(1-3) a ..
  qed
  ultimately show ?thesis by (simp add: sys_inv_def)
qed

lemma if_emit_fields [simp]:
  "pagsz (if b then emit e S else S) = pagsz S"
  "numpags (if b then emit e S else S) = numpags S"
  "pgt (if b then emit e S else S) = pgt S"
  "lru (if b then emit e S else S) = lru S"
  "clock (if b then emit e S else S) = clock S"
  "numframes (if b then emit e S else S) = numframes S"
  "frt (if b then emit e S else S) = frt S"
  "listfree (if b then emit e S else S) = listfree S"
  "listoccupied (if b then emit e S else S) = listoccupied S"
  "numrefsread (if b then emit e S else S) = numrefsread S"
  "numrefswrite (if b then emit e S else S) = numrefswrite S"
  "numpagefaults (if b then emit e S else S) = numpagefaults S"
  "numpgwriteback (if b then emit e S else S) = numpgwriteback S"
  "numillegalrefs (if b then emit e S else S) = numillegalrefs S"
  "detailed (if b then emit e S else S) = detailed S"
  by (simp_all add: emit_def)

lemma in_range_upd [simp]: "in_range (xs[i := x]) j = in_range xs j"
  by (simp add: in_range_def)

lemma occupy_fifo_result:
  assumes pg: "in_range (pgt T) pg" and fr: "in_range (frt T) fr"
    and lo: "listoccupied T = - 1 \<or> (in_range (frt T) (listoccupied T) \<and> listoccupied T \<noteq> fr)"
  shows "\<exists>S'. occupy_free_frame_fifo T fr pg = Inr S' \<and>
     numframes S' = numframes T \<and> numpags S' = numpags T \<and>
     length (frt S') = length (frt T) \<and> listfree S' = listfree T \<and>
     listoccupied S' = fr \<and>
     pgt S' = (pgt T)[nat pg := (pgt T ! nat pg)\<lparr>present := True,
        frame := fr, modified := False, referenced := False, timestamp := 0\<rparr>] \<and>
     (\<forall>i. 0 \<le> i \<and> i < int (length (frt T)) \<longrightarrow>
        page (frt S' ! nat i) = (if i = fr then pg else page (frt T ! nat i)) \<and>
        nextf (frt S' ! nat i) =
          (if i = fr then (if listoccupied T = - 1 then fr else nextf (frt T ! nat (listoccupied T)))
           else if i = listoccupied T then fr
           else nextf (frt T ! nat i)))"
proof (cases "listoccupied T = - 1")
  case True
  let ?S' = "let S3 = (frt_upd fr (\<lambda>f. f\<lparr>nextf := fr\<rparr>) (frt_upd fr (\<lambda>f. f\<lparr>page := pg\<rparr>) (pgt_upd pg
                   (\<lambda>e. e\<lparr>present := True, frame := fr, modified := False,
                          referenced := False, timestamp := 0\<rparr>) T)))\<lparr>listoccupied := fr\<rparr>
             in if detailed S3 then emit (EvOccupy pg fr) S3 else S3"
  have e: "occupy_free_frame_fifo T fr pg = Inr ?S'"
    using pg fr True by (simp add: occupy_free_frame_fifo_def Let_def upd_defs)
  have "\<forall>i. 0 \<le> i \<and> i < int (length (frt T)) \<longrightarrow>
        page (frt ?S' ! nat i) = (if i = fr then pg else page (frt T ! nat i)) \<and>
        nextf (frt ?S' ! nat i) = (if i = fr then fr else nextf (frt T ! nat i))"
    using fr by (simp add: Let_def upd_defs in_range_def nth_upd_int)
  with e True show ?thesis
    by (intro exI [of _ ?S']) (simp add: Let_def upd_defs)
next
  case False
  with lo have l: "in_range (frt T) (listoccupied T)" "listoccupied T \<noteq> fr" by auto
  let ?lo = "listoccupied T"
  let ?S2 = "frt_upd fr (\<lambda>f. f\<lparr>page := pg\<rparr>) (pgt_upd pg
                   (\<lambda>e. e\<lparr>present := True, frame := fr, modified := False,
                          referenced := False, timestamp := 0\<rparr>) T)"
  let ?S' = "let S3 = frt_upd fr (\<lambda>f. f\<lparr>nextf := nextf (frt ?S2 ! nat ?lo)\<rparr>) ?S2;
                 S4 = frt_upd ?lo (\<lambda>f. f\<lparr>nextf := fr\<rparr>) S3;
                 S5 = S4\<lparr>listoccupied := fr\<rparr>
             in if detailed S5 then emit (EvOccupy pg fr) S5 else S5"
  have e: "occupy_free_frame_fifo T fr pg = Inr ?S'"
    using pg fr False l by (simp add: occupy_free_frame_fifo_def Let_def upd_defs)
  have "\<forall>i. 0 \<le> i \<and> i < int (length (frt T)) \<longrightarrow>
        page (frt ?S' ! nat i) = (if i = fr then pg else page (frt T ! nat i)) \<and>
        nextf (frt ?S' ! nat i) =
          (if i = fr then nextf (frt T ! nat ?lo) else if i = ?lo then fr
           else nextf (frt T ! nat i))"
    using fr l by (simp add: Let_def upd_defs in_range_def nth_upd_int)
  with e False show ?thesis
    by (intro exI [of _ ?S']) (simp add: Let_def upd_defs)
qed

lemma occupy_lru_result:
  assumes pg: "in_range (pgt T) pg" and fr: "in_range (frt T) fr"
  shows "\<exists>S'. occupy_free_frame_lru T fr pg = Inr S' \<and>
     numframes S' = numframes T \<and> numpags S' = numpags T \<and>
     length (frt S') = length (frt T) \<and> listfree S' = listfree T \<and>
     listoccupied S' = listoccupied T \<and>
     pgt S' = (pgt T)[nat pg := (pgt T ! nat pg)\<lparr>present := True,
        frame := fr, modified := False, referenced := False, timestamp := 0\<rparr>] \<and>
     (\<forall>i. 0 \<le> i \<and> i < int (length (frt T)) \<longrightarrow>
        page (frt S' ! nat i) = (if i = fr then pg else page (frt T ! nat i)) \<and>
        nextf (frt S' ! nat i) = nextf (frt T ! nat i))"
  using assms
  by (simp add: occupy_free_frame_lru_def Let_def upd_defs in_range_def nth_upd_int)

lemma hpf_free_unfold:
  assumes "(word_of_int (pagsz S) :: u32) \<noteq> 0"
    and "listfree S \<noteq> - 1" "in_range (frt S) (listfree S)" "in_range (frt S) (used S)"
  shows "handle_page_fault v S va = occupy_free_frame v (unlinked S va) (used S) (page_of S va)"
  using assms
  by (simp add: handle_page_fault_def unlinked_def Let_def used_def page_of_def)

lemma unlinked_fields:
  assumes "listfree S \<noteq> - 1" "in_range (frt S) (listfree S)"
  shows "numframes (unlinked S va) = numframes S" "numpags (unlinked S va) = numpags S"
    "pgt (unlinked S va) = pgt S" "length (frt (unlinked S va)) = length (frt S)"
    "listoccupied (unlinked S va) = listoccupied S"
    "listfree (unlinked S va) = (if used S = listfree S then - 1 else listfree S)"
    "\<forall>i. 0 \<le> i \<and> i < int (length (frt S)) \<longrightarrow>
        page (frt (unlinked S va) ! nat i) = page (frt S ! nat i) \<and>
        nextf (frt (unlinked S va) ! nat i) =
          (if i = listfree S \<and> used S \<noteq> listfree S then nextf (frt S ! nat (used S))
           else nextf (frt S ! nat i))"
  using assms
  by (simp_all add: unlinked_def Let_def upd_defs in_range_def nth_upd_int)

lemma inv_after_occupy:
  assumes inv: "sys_inv v S" and lf: "listfree S \<noteq> - 1"
    and pg: "0 \<le> pg" "pg < numpags S" and np: "\<not> present (pgt S ! nat pg)"
    and sz: "numframes S' = numframes S" "numpags S' = numpags S"
      "length (frt S') = length (frt S)" "length (pgt S') = length (pgt S)"
    and lf': "listfree S' = (if used S = numframes S - 1 then - 1 else numframes S - 1)"
    and lo': "v = FIFO \<longrightarrow> listoccupied S' = used S"
    and e: "present e" "frame e = used S"
    and G: "\<And>p. 0 \<le> p \<Longrightarrow> p < numpags S \<Longrightarrow>
             pgt S' ! nat p = (if p = pg then e else pgt S ! nat p)"
    and P: "\<And>i. 0 \<le> i \<Longrightarrow> i < numframes S \<Longrightarrow>
             page (frt S' ! nat i) = (if i = used S then pg else page (frt S ! nat i))"
    and N: "\<And>i. 0 \<le> i \<Longrightarrow> i < numframes S \<Longrightarrow>
             nextf (frt S' ! nat i) =
               (if v = FIFO then
                  (if i = used S then 0 else if i = used S - 1 then used S
                   else if i = numframes S - 1 then used S + 1
                   else nextf (frt S ! nat i))
                else (if i = numframes S - 1 \<and> used S \<noteq> numframes S - 1 then used S + 1
                      else nextf (frt S ! nat i)))"
  shows "sys_inv v S' \<and> used S' = used S + 1"
proof -
  let ?n = "numframes S" and ?k = "used S"
  from inv have s: "0 < ?n" "?n \<le> int (length (frt S))" "0 \<le> numpags S"
      "numpags S \<le> int (length (pgt S))" "0 \<le> ?k" "?k \<le> ?n"
    by (simp_all add: sys_inv_def inv_sizes_def)
  from inv lf have f: "listfree S = ?n - 1" "?k < ?n"
      "\<And>i. ?k \<le> i \<Longrightarrow> i < ?n - 1 \<Longrightarrow> nextf (frt S ! nat i) = i + 1"
      "\<And>i. ?k \<le> i \<Longrightarrow> i < ?n \<Longrightarrow> page (frt S ! nat i) = - 1"
    by (simp_all add: sys_inv_def inv_free_def)
  from inv have m1: "\<And>i. 0 \<le> i \<Longrightarrow> i < ?k \<Longrightarrow>
        0 \<le> page (frt S ! nat i) \<and> page (frt S ! nat i) < numpags S \<and>
        present (pgt S ! nat (page (frt S ! nat i))) \<and>
        frame (pgt S ! nat (page (frt S ! nat i))) = i"
    and m2: "\<And>p. 0 \<le> p \<Longrightarrow> p < numpags S \<Longrightarrow> present (pgt S ! nat p) \<Longrightarrow>
          0 \<le> frame (pgt S ! nat p) \<and> frame (pgt S ! nat p) < ?k \<and>
          page (frt S ! nat (frame (pgt S ! nat p))) = p"
    by (simp_all add: sys_inv_def inv_map_def)
  have u: "used S' = ?k + 1"
  proof (cases "?k = ?n - 1")
    case True
    then show ?thesis using lf' sz s by (simp add: used_def [of S'])
  next
    case False
    then have "nextf (frt S' ! nat (?n - 1)) = ?k + 1"
      using N [of "?n - 1"] s f by (cases v) auto
    with False show ?thesis using lf' sz s by (simp add: used_def [of S'])
  qed
  have 1: "inv_sizes S'"
    using s f sz u by (simp add: inv_sizes_def)
  have 2: "inv_free S'"
    unfolding inv_free_def
  proof (intro impI conjI ballI)
    assume a: "listfree S' \<noteq> - 1"
    then have ne: "?k \<noteq> ?n - 1" using lf' by (auto split: if_splits)
    show "listfree S' = numframes S' - 1" using a lf' sz by (auto split: if_splits)
    show "used S' < numframes S'" using u ne f sz by simp
    { fix i assume "i \<in> {used S'..<numframes S' - 1}"
      then have i: "?k + 1 \<le> i" "i < ?n - 1" using u sz by simp_all
      then show "nextf (frt S' ! nat i) = i + 1"
        using N [of i] f(3) [of i] s by (cases v) auto }
    { fix i assume "i \<in> {used S'..<numframes S'}"
      then have i: "?k + 1 \<le> i" "i < ?n" using u sz by simp_all
      then show "page (frt S' ! nat i) = - 1"
        using P [of i] f(4) [of i] s by auto }
  qed
  have 3: "inv_map S'"
    unfolding inv_map_def
  proof (intro conjI ballI impI)
    fix i assume "i \<in> {0..<used S'}"
    then have i: "0 \<le> i" "i \<le> ?k" using u by simp_all
    show "0 \<le> page (frt S' ! nat i)" "page (frt S' ! nat i) < numpags S'"
      "present (pgt S' ! nat (page (frt S' ! nat i)))"
      "frame (pgt S' ! nat (page (frt S' ! nat i))) = i"
    proof -
      show "0 \<le> page (frt S' ! nat i)" using i P [of i] f m1 [of i] pg by auto
      show "page (frt S' ! nat i) < numpags S'" using i P [of i] f m1 [of i] pg sz by auto
      show "present (pgt S' ! nat (page (frt S' ! nat i)))"
      proof (cases "i = ?k")
        case True
        then show ?thesis using P [of i] i f G [of pg] pg e by simp
      next
        case False
        with i have "i < ?k" by simp
        with m1 [of i] i P [of i] f G [of "page (frt S ! nat i)"] e show ?thesis by auto
      qed
      show "frame (pgt S' ! nat (page (frt S' ! nat i))) = i"
      proof (cases "i = ?k")
        case True
        then show ?thesis using P [of i] i f G [of pg] pg e by simp
      next
        case False
        with i have "i < ?k" by simp
        with m1 [of i] i P [of i] f G [of "page (frt S ! nat i)"] e np show ?thesis by auto
      qed
    qed
  next
    fix p assume "p \<in> {0..<numpags S'}" and pr: "present (pgt S' ! nat p)"
    then have p: "0 \<le> p" "p < numpags S" using sz by simp_all
    show "0 \<le> frame (pgt S' ! nat p)" "frame (pgt S' ! nat p) < used S'"
      "page (frt S' ! nat (frame (pgt S' ! nat p))) = p"
    proof -
      show "0 \<le> frame (pgt S' ! nat p)" using G [of p] p pr m2 [of p] e s by (auto split: if_splits)
      show "frame (pgt S' ! nat p) < used S'"
        using G [of p] p pr m2 [of p] e s u by (auto split: if_splits)
      show "page (frt S' ! nat (frame (pgt S' ! nat p))) = p"
      proof (cases "p = pg")
        case True
        then show ?thesis using G [of p] p e P [of ?k] s f by simp
      next
        case False
        then have "pgt S' ! nat p = pgt S ! nat p" using G [of p] p by simp
        with pr m2 [of p] p P [of "frame (pgt S ! nat p)"] f show ?thesis by auto
      qed
    qed
  qed
  have 4: "inv_occ S'" if v: "v = FIFO"
  proof -
    from inv v have o: "if ?k = 0 then listoccupied S = - 1
      else 0 \<le> listoccupied S \<and> listoccupied S < ?k \<and>
           (?k < ?n \<longrightarrow> listoccupied S = ?k - 1) \<and>
           (\<forall>i\<in>{0..<?k - 1}. nextf (frt S ! nat i) = i + 1) \<and>
           nextf (frt S ! nat (?k - 1)) = 0"
      by (simp add: sys_inv_def inv_occ_def)
    have lo: "listoccupied S' = ?k" using lo' v by simp
    have a: "nextf (frt S' ! nat i) = i + 1" if "i \<in> {0..<used S' - 1}" for i
    proof -
      from that have i: "0 \<le> i" "i < ?k" using u by simp_all
      show ?thesis
      proof (cases "i = ?k - 1")
        case True
        then show ?thesis using N [of i] i f v by simp
      next
        case False
        with i have "i \<in> {0..<?k - 1}" by simp
        with o i have "nextf (frt S ! nat i) = i + 1" by (auto split: if_splits)
        then show ?thesis using N [of i] i f v False by simp
      qed
    qed
    have b: "nextf (frt S' ! nat (used S' - 1)) = 0"
      using u N [of ?k] s f v by simp
    show ?thesis
      unfolding inv_occ_def using u s lo a b sz f by auto
  qed
  from 1 2 3 4 u show ?thesis by (simp add: sys_inv_def)
qed

lemma hpf_free_inv:
  assumes inv: "sys_inv v S" and z: "(word_of_int (pagsz S) :: u32) \<noteq> 0"
    and lf: "listfree S \<noteq> - 1"
    and pg: "0 \<le> page_of S va" "page_of S va < numpags S"
    and np: "\<not> present (pgt S ! nat (page_of S va))"
  shows "\<exists>S'. handle_page_fault v S va = Inr S' \<and> sys_inv v S' \<and> used S' = used S + 1"
proof -
  let ?n = "numframes S" and ?k = "used S" and ?pg = "page_of S va"
  let ?T = "unlinked S va"
  from inv have s: "0 < ?n" "?n \<le> int (length (frt S))" "0 \<le> numpags S"
      "numpags S \<le> int (length (pgt S))" "0 \<le> ?k" "?k \<le> ?n"
    by (simp_all add: sys_inv_def inv_sizes_def)
  from inv lf have f: "listfree S = ?n - 1" "?k < ?n"
      "\<And>i. ?k \<le> i \<Longrightarrow> i < ?n - 1 \<Longrightarrow> nextf (frt S ! nat i) = i + 1"
    by (simp_all add: sys_inv_def inv_free_def)
  have r: "in_range (frt S) (listfree S)" "in_range (frt S) ?k" "in_range (pgt S) ?pg"
    using s f pg by (simp_all add: in_range_def)
  note T = unlinked_fields [OF lf r(1), of va]
  have TN: "nextf (frt ?T ! nat i) =
      (if i = ?n - 1 \<and> ?k \<noteq> ?n - 1 then ?k + 1 else nextf (frt S ! nat i))"
    if "0 \<le> i" "i < ?n" for i
    using T(7) [rule_format, of i] that s f(1,2) f(3) [of ?k] by auto
  have TP: "page (frt ?T ! nat i) = page (frt S ! nat i)" if "0 \<le> i" "i < ?n" for i
    using T(7) [rule_format, of i] that s by auto
  have rT: "in_range (pgt ?T) ?pg" "in_range (frt ?T) ?k"
    using r T by (simp_all add: in_range_def)
  have e: "handle_page_fault v S va = occupy_free_frame v ?T ?k ?pg"
    using hpf_free_unfold [OF z lf r(1,2)] .
  let ?e = "(pgt S ! nat ?pg)\<lparr>present := True, frame := ?k, modified := False,
      referenced := False, timestamp := 0\<rparr>"
  have G: "(pgt S)[nat ?pg := ?e] ! nat p = (if p = ?pg then ?e else pgt S ! nat p)"
    if "0 \<le> p" "p < numpags S" for p
    using that pg s by (simp add: nth_upd_int)
  show ?thesis
  proof (cases v)
    case LRU
    from occupy_lru_result [OF rT] obtain S' where
      o: "occupy_free_frame_lru ?T ?k ?pg = Inr S'"
        "numframes S' = numframes ?T" "numpags S' = numpags ?T"
        "length (frt S') = length (frt ?T)" "listfree S' = listfree ?T"
        "pgt S' = (pgt ?T)[nat ?pg := (pgt ?T ! nat ?pg)\<lparr>present := True,
            frame := ?k, modified := False, referenced := False, timestamp := 0\<rparr>]"
        "\<forall>i. 0 \<le> i \<and> i < int (length (frt ?T)) \<longrightarrow>
          page (frt S' ! nat i) = (if i = ?k then ?pg else page (frt ?T ! nat i)) \<and>
          nextf (frt S' ! nat i) = nextf (frt ?T ! nat i)"
      by blast
    have "sys_inv v S' \<and> used S' = used S + 1"
    proof (rule inv_after_occupy [OF inv lf pg np, where e = ?e])
      show "numframes S' = ?n" "numpags S' = numpags S" "length (frt S') = length (frt S)"
        "length (pgt S') = length (pgt S)"
        using o T by simp_all
      show "listfree S' = (if ?k = ?n - 1 then - 1 else ?n - 1)" using o(5) T(6) f(1) by simp
      show "v = FIFO \<longrightarrow> listoccupied S' = ?k" using LRU by simp
      show "present ?e" "frame ?e = ?k" by simp_all
      show "pgt S' ! nat p = (if p = ?pg then ?e else pgt S ! nat p)"
        if "0 \<le> p" "p < numpags S" for p
        using G [OF that] o(6) T(3) by simp
      show "page (frt S' ! nat i) = (if i = ?k then ?pg else page (frt S ! nat i))"
        if "0 \<le> i" "i < ?n" for i
        using o(7) [rule_format, of i] that T(4) s TP [OF that] by simp
      show "nextf (frt S' ! nat i) =
               (if v = FIFO then
                  (if i = ?k then 0 else if i = ?k - 1 then ?k
                   else if i = ?n - 1 then ?k + 1
                   else nextf (frt S ! nat i))
                else (if i = ?n - 1 \<and> ?k \<noteq> ?n - 1 then ?k + 1
                      else nextf (frt S ! nat i)))"
        if "0 \<le> i" "i < ?n" for i
        using o(7) [rule_format, of i] that T(4) s TN [OF that] LRU by simp
    qed
    with e o(1) LRU show ?thesis by (simp add: occupy_free_frame_def)
  next
    case FIFO
    from inv FIFO have oc: "if ?k = 0 then listoccupied S = - 1
      else 0 \<le> listoccupied S \<and> listoccupied S < ?k \<and>
           (?k < ?n \<longrightarrow> listoccupied S = ?k - 1) \<and>
           (\<forall>i\<in>{0..<?k - 1}. nextf (frt S ! nat i) = i + 1) \<and>
           nextf (frt S ! nat (?k - 1)) = 0"
      by (simp add: sys_inv_def inv_occ_def)
    have lo: "listoccupied ?T = (if ?k = 0 then - 1 else ?k - 1)"
      using oc f(2) T(5) by (auto split: if_splits)
    have nk: "0 < ?k \<Longrightarrow> nextf (frt S ! nat (?k - 1)) = 0"
      using oc by (auto split: if_splits)
    have c: "listoccupied ?T = - 1 \<or>
        (in_range (frt ?T) (listoccupied ?T) \<and> listoccupied ?T \<noteq> ?k)"
      using lo s f(2) T(4) by (auto simp: in_range_def)
    from occupy_fifo_result [OF rT c] obtain S' where
      o: "occupy_free_frame_fifo ?T ?k ?pg = Inr S'"
        "numframes S' = numframes ?T" "numpags S' = numpags ?T"
        "length (frt S') = length (frt ?T)" "listfree S' = listfree ?T"
        "listoccupied S' = ?k"
        "pgt S' = (pgt ?T)[nat ?pg := (pgt ?T ! nat ?pg)\<lparr>present := True,
            frame := ?k, modified := False, referenced := False, timestamp := 0\<rparr>]"
        "\<forall>i. 0 \<le> i \<and> i < int (length (frt ?T)) \<longrightarrow>
          page (frt S' ! nat i) = (if i = ?k then ?pg else page (frt ?T ! nat i)) \<and>
          nextf (frt S' ! nat i) =
            (if i = ?k then (if listoccupied ?T = - 1 then ?k
                             else nextf (frt ?T ! nat (listoccupied ?T)))
             else if i = listoccupied ?T then ?k
             else nextf (frt ?T ! nat i))"
      by blast
    have "sys_inv v S' \<and> used S' = used S + 1"
    proof (rule inv_after_occupy [OF inv lf pg np, where e = ?e])
      show "numframes S' = ?n" "numpags S' = numpags S" "length (frt S') = length (frt S)"
        "length (pgt S') = length (pgt S)"
        using o T by simp_all
      show "listfree S' = (if ?k = ?n - 1 then - 1 else ?n - 1)" using o(5) T(6) f(1) by simp
      show "v = FIFO \<longrightarrow> listoccupied S' = ?k" using o(6) by simp
      show "present ?e" "frame ?e = ?k" by simp_all
      show "pgt S' ! nat p = (if p = ?pg then ?e else pgt S ! nat p)"
        if "0 \<le> p" "p < numpags S" for p
        using G [OF that] o(7) T(3) by simp
      show "page (frt S' ! nat i) = (if i = ?k then ?pg else page (frt S ! nat i))"
        if "0 \<le> i" "i < ?n" for i
        using o(8) [rule_format, of i] that T(4) s TP [OF that] by simp
      show "nextf (frt S' ! nat i) =
               (if v = FIFO then
                  (if i = ?k then 0 else if i = ?k - 1 then ?k
                   else if i = ?n - 1 then ?k + 1
                   else nextf (frt S ! nat i))
                else (if i = ?n - 1 \<and> ?k \<noteq> ?n - 1 then ?k + 1
                      else nextf (frt S ! nat i)))"
        if "0 \<le> i" "i < ?n" for i
      proof (cases "?k = 0")
        case True
        then show ?thesis
          using o(8) [rule_format, of i] that T(4) s TN [OF that] FIFO lo by auto
      next
        case False
        then have k1: "0 \<le> ?k - 1" "?k - 1 < ?n" using s f by simp_all
        show ?thesis
          using o(8) [rule_format, of i] that T(4) s TN [OF that] TN [OF k1] FIFO lo False
            nk f(2)
          by auto
      qed
    qed
    with e o(1) FIFO show ?thesis by (simp add: occupy_free_frame_def)
  qed
qed

lemma inv_after_replace:
  assumes inv: "sys_inv v S" and lf: "listfree S = - 1"
    and pg: "0 \<le> pg" "pg < numpags S" and np: "\<not> present (pgt S ! nat pg)"
    and vic: "0 \<le> victim" "victim < numpags S" "present (pgt S ! nat victim)"
    and sz: "numframes S' = numframes S" "numpags S' = numpags S"
      "length (frt S') = length (frt S)" "length (pgt S') = length (pgt S)"
    and lf': "listfree S' = - 1"
    and lo': "v = FIFO \<longrightarrow> listoccupied S' = frame (pgt S ! nat victim)"
    and Gpg: "present (pgt S' ! nat pg)" "frame (pgt S' ! nat pg) = frame (pgt S ! nat victim)"
    and Gv: "\<not> present (pgt S' ! nat victim)"
    and Go: "\<And>p. 0 \<le> p \<Longrightarrow> p < numpags S \<Longrightarrow> p \<noteq> pg \<Longrightarrow> p \<noteq> victim \<Longrightarrow>
             pgt S' ! nat p = pgt S ! nat p"
    and P: "\<And>i. 0 \<le> i \<Longrightarrow> i < numframes S \<Longrightarrow>
             page (frt S' ! nat i) =
               (if i = frame (pgt S ! nat victim) then pg else page (frt S ! nat i))"
    and N: "\<And>i. 0 \<le> i \<Longrightarrow> i < numframes S \<Longrightarrow>
             nextf (frt S' ! nat i) = nextf (frt S ! nat i)"
  shows "sys_inv v S' \<and> used S' = used S"
proof -
  let ?n = "numframes S" and ?fr = "frame (pgt S ! nat victim)"
  have k: "used S = ?n" using lf by (simp add: used_def)
  have u: "used S' = ?n" using lf' sz by (simp add: used_def)
  from inv have s: "0 < ?n" "?n \<le> int (length (frt S))" "0 \<le> numpags S"
      "numpags S \<le> int (length (pgt S))"
    by (simp_all add: sys_inv_def inv_sizes_def)
  from inv k have m1: "\<And>i. 0 \<le> i \<Longrightarrow> i < ?n \<Longrightarrow>
        0 \<le> page (frt S ! nat i) \<and> page (frt S ! nat i) < numpags S \<and>
        present (pgt S ! nat (page (frt S ! nat i))) \<and>
        frame (pgt S ! nat (page (frt S ! nat i))) = i"
    and m2: "\<And>p. 0 \<le> p \<Longrightarrow> p < numpags S \<Longrightarrow> present (pgt S ! nat p) \<Longrightarrow>
          0 \<le> frame (pgt S ! nat p) \<and> frame (pgt S ! nat p) < ?n \<and>
          page (frt S ! nat (frame (pgt S ! nat p))) = p"
    by (simp_all add: sys_inv_def inv_map_def)
  have fr: "0 \<le> ?fr" "?fr < ?n" "page (frt S ! nat ?fr) = victim"
    using m2 [OF vic] by simp_all
  have ne: "victim \<noteq> pg" using vic np by auto
  have 1: "inv_sizes S'" using s sz u by (simp add: inv_sizes_def)
  have 2: "inv_free S'" using lf' by (simp add: inv_free_def)
  have 3: "inv_map S'"
    unfolding inv_map_def
  proof (intro conjI ballI impI)
    fix i assume "i \<in> {0..<used S'}"
    then have i: "0 \<le> i" "i < ?n" using u by simp_all
    show "0 \<le> page (frt S' ! nat i)" using i P [of i] m1 [of i] pg by auto
    show "page (frt S' ! nat i) < numpags S'" using i P [of i] m1 [of i] pg sz by auto
    show "present (pgt S' ! nat (page (frt S' ! nat i)))"
      "frame (pgt S' ! nat (page (frt S' ! nat i))) = i"
    proof -
      have "present (pgt S' ! nat (page (frt S' ! nat i))) \<and>
            frame (pgt S' ! nat (page (frt S' ! nat i))) = i"
      proof (cases "i = ?fr")
        case True
        then show ?thesis using P [of i] i Gpg by simp
      next
        case False
        let ?p = "page (frt S ! nat i)"
        from m1 [OF i] have p: "0 \<le> ?p" "?p < numpags S" "present (pgt S ! nat ?p)"
          "frame (pgt S ! nat ?p) = i" by simp_all
        from p False have "?p \<noteq> victim" by auto
        moreover from p np have "?p \<noteq> pg" by auto
        ultimately have "pgt S' ! nat ?p = pgt S ! nat ?p" using Go p by simp
        then show ?thesis using P [of i] i False p by simp
      qed
      then show "present (pgt S' ! nat (page (frt S' ! nat i)))"
        "frame (pgt S' ! nat (page (frt S' ! nat i))) = i" by simp_all
    qed
  next
    fix p assume "p \<in> {0..<numpags S'}" and pr: "present (pgt S' ! nat p)"
    then have p: "0 \<le> p" "p < numpags S" using sz by simp_all
    have pv: "p \<noteq> victim" using pr Gv by auto
    have "0 \<le> frame (pgt S' ! nat p) \<and> frame (pgt S' ! nat p) < used S' \<and>
      page (frt S' ! nat (frame (pgt S' ! nat p))) = p"
    proof (cases "p = pg")
      case True
      then show ?thesis using Gpg fr u P [of ?fr] by simp
    next
      case False
      with pv p have eq: "pgt S' ! nat p = pgt S ! nat p" using Go by simp
      with pr have pr0: "present (pgt S ! nat p)" by simp
      let ?f = "frame (pgt S ! nat p)"
      from m2 [OF p pr0] have f: "0 \<le> ?f" "?f < ?n" "page (frt S ! nat ?f) = p" by simp_all
      with fr pv have "?f \<noteq> ?fr" by auto
      with f eq u P [of ?f] show ?thesis by simp
    qed
    then show "0 \<le> frame (pgt S' ! nat p)" "frame (pgt S' ! nat p) < used S'"
      "page (frt S' ! nat (frame (pgt S' ! nat p))) = p" by simp_all
  qed
  have 4: "inv_occ S'" if v: "v = FIFO"
  proof -
    from inv v k s have o: "\<forall>i\<in>{0..<?n - 1}. nextf (frt S ! nat i) = i + 1"
      "nextf (frt S ! nat (?n - 1)) = 0"
      by (auto simp: sys_inv_def inv_occ_def)
    have a: "nextf (frt S' ! nat i) = i + 1" if "i \<in> {0..<?n - 1}" for i
      using that N [of i] o(1) by simp
    have b: "nextf (frt S' ! nat (?n - 1)) = 0" using N [of "?n - 1"] o(2) s by simp
    show ?thesis
      unfolding inv_occ_def using u s a b sz fr lo' v by auto
  qed
  from 1 2 3 4 u k show ?thesis by (simp add: sys_inv_def)
qed

lemma replace_result:
  assumes "in_range (pgt T) victim" "in_range (pgt T) pg"
    "in_range (frt T) (frame (pgt T ! nat victim))"
  shows "\<exists>S'. replace_page v T victim pg = Inr S' \<and>
     numframes S' = numframes T \<and> numpags S' = numpags T \<and>
     length (frt S') = length (frt T) \<and> length (pgt S') = length (pgt T) \<and>
     listfree S' = listfree T \<and>
     listoccupied S' = (if v = FIFO then frame (pgt T ! nat victim) else listoccupied T) \<and>
     present (pgt S' ! nat pg) \<and> frame (pgt S' ! nat pg) = frame (pgt T ! nat victim) \<and>
     (victim \<noteq> pg \<longrightarrow> \<not> present (pgt S' ! nat victim)) \<and>
     (\<forall>p. 0 \<le> p \<and> p \<noteq> pg \<and> p \<noteq> victim \<longrightarrow> pgt S' ! nat p = pgt T ! nat p) \<and>
     (\<forall>i. 0 \<le> i \<longrightarrow>
        page (frt S' ! nat i) =
          (if i = frame (pgt T ! nat victim) then pg else page (frt T ! nat i)) \<and>
        nextf (frt S' ! nat i) = nextf (frt T ! nat i))"
  using assms
  by (cases v)
     (simp_all add: replace_page_def replace_page_fifo_def replace_page_lru_def Let_def
        upd_defs in_range_def nth_upd_int)

lemma faulted_fields [simp]:
  "pagsz (faulted S va) = pagsz S" "numpags (faulted S va) = numpags S"
  "pgt (faulted S va) = pgt S" "lru (faulted S va) = lru S" "clock (faulted S va) = clock S"
  "numframes (faulted S va) = numframes S" "frt (faulted S va) = frt S"
  "listfree (faulted S va) = listfree S" "listoccupied (faulted S va) = listoccupied S"
  "numrefsread (faulted S va) = numrefsread S" "numrefswrite (faulted S va) = numrefswrite S"
  "numpagefaults (faulted S va) = numpagefaults S + 1"
  "numpgwriteback (faulted S va) = numpgwriteback S"
  "numillegalrefs (faulted S va) = numillegalrefs S" "detailed (faulted S va) = detailed S"
  by (simp_all add: faulted_def Let_def)

lemma page_of_numpagefaults [simp]:
  "page_of (S\<lparr>numpagefaults := x\<rparr>) va = page_of S va"
  by (simp add: page_of_def)

lemma hpf_evict_unfold:
  assumes "(word_of_int (pagsz S) :: u32) \<noteq> 0" and "listfree S = - 1"
  shows "handle_page_fault v S va =
     (case choose_page_to_be_replaced v (faulted S va) of
        Inl e \<Rightarrow> Inl e
      | Inr (victim, S3) \<Rightarrow> replace_page v S3 victim (page_of S va))"
  using assms by (simp add: handle_page_fault_def faulted_def Let_def)

lemma lru_scan_victim:
  "lru_scan ps n i v0 m0 = Inr (v, m) \<Longrightarrow> 0 \<le> i \<Longrightarrow>
   v = v0 \<or> (0 \<le> v \<and> v < n \<and> present (ps ! nat v))"
proof (induction ps n i v0 m0 rule: lru_scan.induct)
  case (1 ps n i victim mn)
  show ?case
  proof (cases "i < n")
    case False
    with "1.prems" show ?thesis by (simp add: lru_scan.simps [of ps n i])
  next
    case True
    show ?thesis
    proof (cases "in_range ps i")
      case False
      with True "1.prems" show ?thesis by (simp add: lru_scan.simps [of ps n i])
    next
      case r: True
      show ?thesis
      proof (cases "present (ps ! nat i) \<and> timestamp (ps ! nat i) < mn")
        case t: True
        with True r "1.prems" have "lru_scan ps n (i + 1) i (timestamp (ps ! nat i)) = Inr (v, m)"
          by (simp add: lru_scan.simps [of ps n i])
        from "1.IH"(1) [OF True _ t this] r "1.prems"(2) True t show ?thesis by auto
      next
        case f: False
        with True r "1.prems" have "lru_scan ps n (i + 1) victim mn = Inr (v, m)"
          by (auto simp add: lru_scan.simps [of ps n i])
        from "1.IH"(2) [OF True _ f this] r "1.prems"(2) show ?thesis by auto
      qed
    qed
  qed
qed

lemma hpf_evict_step:
  assumes inv: "sys_inv v S" and z: "(word_of_int (pagsz S) :: u32) \<noteq> 0"
    and lf: "listfree S = - 1"
    and pg: "0 \<le> page_of S va" "page_of S va < numpags S"
    and np: "\<not> present (pgt S ! nat (page_of S va))"
    and ch: "choose_page_to_be_replaced v (faulted S va) = Inr (victim, S3)"
    and vic: "0 \<le> victim" "victim < numpags S" "present (pgt S ! nat victim)"
    and lo: "v = FIFO \<longrightarrow> True"
  shows "\<exists>S'. handle_page_fault v S va = Inr S' \<and> sys_inv v S' \<and> used S' = used S"
proof -
  let ?n = "numframes S" and ?pg = "page_of S va" and ?fr = "frame (pgt S ! nat victim)"
  from inv have s: "0 < ?n" "?n \<le> int (length (frt S))" "0 \<le> numpags S"
      "numpags S \<le> int (length (pgt S))"
    by (simp_all add: sys_inv_def inv_sizes_def)
  have k: "used S = ?n" using lf by (simp add: used_def)
  from inv k have m2: "\<And>p. 0 \<le> p \<Longrightarrow> p < numpags S \<Longrightarrow> present (pgt S ! nat p) \<Longrightarrow>
          0 \<le> frame (pgt S ! nat p) \<and> frame (pgt S ! nat p) < ?n \<and>
          page (frt S ! nat (frame (pgt S ! nat p))) = p"
    by (simp_all add: sys_inv_def inv_map_def)
  have fr: "0 \<le> ?fr" "?fr < ?n" using m2 [OF vic] by simp_all
  note c = choose_Inr [OF ch]
  have r: "in_range (pgt S3) victim" "in_range (pgt S3) ?pg"
    "in_range (frt S3) (frame (pgt S3 ! nat victim))"
    using c vic pg s fr by (simp_all add: in_range_def)
  from replace_result [OF r, of v] obtain S' where
    o: "replace_page v S3 victim ?pg = Inr S'"
      "numframes S' = numframes S3" "numpags S' = numpags S3"
      "length (frt S') = length (frt S3)" "length (pgt S') = length (pgt S3)"
      "listfree S' = listfree S3"
      "listoccupied S' = (if v = FIFO then frame (pgt S3 ! nat victim) else listoccupied S3)"
      "present (pgt S' ! nat ?pg)" "frame (pgt S' ! nat ?pg) = frame (pgt S3 ! nat victim)"
      "victim \<noteq> ?pg \<longrightarrow> \<not> present (pgt S' ! nat victim)"
      "\<forall>p. 0 \<le> p \<and> p \<noteq> ?pg \<and> p \<noteq> victim \<longrightarrow> pgt S' ! nat p = pgt S3 ! nat p"
      "\<forall>i. 0 \<le> i \<longrightarrow>
        page (frt S' ! nat i) =
          (if i = frame (pgt S3 ! nat victim) then ?pg else page (frt S3 ! nat i)) \<and>
        nextf (frt S' ! nat i) = nextf (frt S3 ! nat i)"
    by blast
  have ne: "victim \<noteq> ?pg" using vic np by auto
  have "sys_inv v S' \<and> used S' = used S"
  proof (rule inv_after_replace [OF inv lf pg np vic])
    show "numframes S' = ?n" "numpags S' = numpags S" "length (frt S') = length (frt S)"
      "length (pgt S') = length (pgt S)" "listfree S' = - 1"
      using o c lf by simp_all
    show "v = FIFO \<longrightarrow> listoccupied S' = ?fr" using o(7) c by simp
    show "present (pgt S' ! nat ?pg)" "frame (pgt S' ! nat ?pg) = ?fr" using o c by simp_all
    show "\<not> present (pgt S' ! nat victim)" using o(10) ne by simp
    show "pgt S' ! nat p = pgt S ! nat p"
      if "0 \<le> p" "p < numpags S" "p \<noteq> ?pg" "p \<noteq> victim" for p
      using o(11) that c by simp
    show "page (frt S' ! nat i) = (if i = ?fr then ?pg else page (frt S ! nat i))"
      if "0 \<le> i" "i < ?n" for i
      using o(12) that c by simp
    show "nextf (frt S' ! nat i) = nextf (frt S ! nat i)" if "0 \<le> i" "i < ?n" for i
      using o(12) that c by simp
  qed
  with o(1) ch hpf_evict_unfold [OF z lf, of v va] show ?thesis by simp
qed

lemma choose_fifo_inv:
  assumes inv: "sys_inv FIFO S" and lf: "listfree S = - 1"
  shows "\<exists>victim S3. choose_page_to_be_replaced FIFO (faulted S va) = Inr (victim, S3) \<and>
     0 \<le> victim \<and> victim < numpags S \<and> present (pgt S ! nat victim) \<and>
     victim = page (frt S ! nat (nextf (frt S ! nat (listoccupied S))))"
proof -
  let ?n = "numframes S" and ?lo = "listoccupied S"
  from inv have s: "0 < ?n" "?n \<le> int (length (frt S))"
    by (simp_all add: sys_inv_def inv_sizes_def)
  have k: "used S = ?n" using lf by (simp add: used_def)
  from inv k s have o: "0 \<le> ?lo" "?lo < ?n" "\<forall>i\<in>{0..<?n - 1}. nextf (frt S ! nat i) = i + 1"
      "nextf (frt S ! nat (?n - 1)) = 0"
    by (auto simp: sys_inv_def inv_occ_def)
  let ?vf = "nextf (frt S ! nat ?lo)"
  have vf: "0 \<le> ?vf \<and> ?vf < ?n"
  proof (cases "?lo = ?n - 1")
    case True
    then show ?thesis using o(4) s by simp
  next
    case False
    with o have "?lo \<in> {0..<?n - 1}" by simp
    with o(3) have "?vf = ?lo + 1" by blast
    with o False show ?thesis by simp
  qed
  from inv k vf have m: "0 \<le> page (frt S ! nat ?vf)" "page (frt S ! nat ?vf) < numpags S"
     "present (pgt S ! nat (page (frt S ! nat ?vf)))"
    by (simp_all add: sys_inv_def inv_map_def)
  have "\<exists>S3. choose_page_to_be_replaced FIFO (faulted S va) =
      Inr (page (frt S ! nat ?vf), S3)"
    using o s vf
    by (simp add: choose_page_to_be_replaced_def choose_page_to_be_replaced_fifo_def Let_def
        in_range_def)
  with m show ?thesis by blast
qed

lemma hpf_lru_victim:
  assumes z: "(word_of_int (pagsz S) :: u32) \<noteq> 0" and lf: "listfree S = - 1"
    and ok: "handle_page_fault LRU S va = Inr S'"
  shows "\<exists>victim S3. choose_page_to_be_replaced LRU (faulted S va) = Inr (victim, S3) \<and>
     0 \<le> victim \<and> victim < numpags S \<and> present (pgt S ! nat victim)"
proof -
  from ok hpf_evict_unfold [OF z lf, of LRU va] obtain victim S3 where
    c: "choose_page_to_be_replaced LRU (faulted S va) = Inr (victim, S3)"
    and r: "replace_page LRU S3 victim (page_of S va) = Inr S'"
    by (auto split: sum.splits)
  from r have "in_range (pgt S3) victim"
    by (auto simp: replace_page_def replace_page_lru_def split: if_splits)
  then have v0: "0 \<le> victim" by (simp add: in_range_def)
  from c obtain m where "lru_scan (pgt S) (numpags S) 0 (- 1) (NOT 0) = Inr (victim, m)"
    by (auto simp: choose_page_to_be_replaced_def choose_page_to_be_replaced_lru_def
        split: sum.splits if_splits)
  from lru_scan_victim [OF this] v0 have "victim < numpags S" "present (pgt S ! nat victim)"
    by auto
  with c v0 show ?thesis by blast
qed

lemma hpf_inv:
  assumes inv: "sys_inv v S" and z: "(word_of_int (pagsz S) :: u32) \<noteq> 0"
    and pg: "0 \<le> page_of S va" "page_of S va < numpags S"
    and np: "\<not> present (pgt S ! nat (page_of S va))"
    and ok: "v = FIFO \<or> (\<exists>S'. handle_page_fault v S va = Inr S')"
  shows "\<exists>S'. handle_page_fault v S va = Inr S' \<and> sys_inv v S'"
proof (cases "listfree S = - 1")
  case False
  from hpf_free_inv [OF inv z False pg np] show ?thesis by blast
next
  case True
  have "\<exists>victim S3. choose_page_to_be_replaced v (faulted S va) = Inr (victim, S3) \<and>
     0 \<le> victim \<and> victim < numpags S \<and> present (pgt S ! nat victim)"
  proof (cases v)
    case FIFO
    with choose_fifo_inv [of S va] inv True show ?thesis by blast
  next
    case LRU
    with ok hpf_lru_victim [OF z True] show ?thesis by blast
  qed
  then obtain victim S3 where
    "choose_page_to_be_replaced v (faulted S va) = Inr (victim, S3)"
    "0 \<le> victim" "victim < numpags S" "present (pgt S ! nat victim)" by blast
  from hpf_evict_step [OF inv z True pg np this] show ?thesis by blast
qed

lemma sim_mmu_step:
  assumes inv: "sys_inv v S" and z: "(word_of_int (pagsz S) :: u32) \<noteq> 0"
    and ok: "v = FIFO \<or> (\<exists>r. sim_mmu v S va c = Inr r)"
  shows "\<exists>pa S'. sim_mmu v S va c = Inr (pa, S') \<and> sys_inv v S' \<and> pagsz S' = pagsz S \<and>
     numframes S' = numframes S"
proof (cases "page_of S va < 0 \<or> numpags S \<le> page_of S va")
  case True
  have "sys_inv v (S\<lparr>numillegalrefs := numillegalrefs S + 1\<rparr>) = sys_inv v S"
    by (rule sys_inv_cong) simp_all
  with True z inv show ?thesis by (auto simp: sim_mmu_def Let_def)
next
  case False
  let ?pg = "page_of S va"
  from inv have s: "numpags S \<le> int (length (pgt S))"
    by (simp add: sys_inv_def inv_sizes_def)
  with False have r0: "in_range (pgt S) ?pg" by (simp add: in_range_def)
  have "\<exists>S1. (if \<not> present (pgt S ! nat ?pg) then handle_page_fault v S va else Inr S) = Inr S1
      \<and> sys_inv v S1"
  proof (cases "present (pgt S ! nat ?pg)")
    case True
    with inv show ?thesis by simp
  next
    case np: False
    have "v = FIFO \<or> (\<exists>S'. handle_page_fault v S va = Inr S')"
      using ok z False r0 np by (auto simp: sim_mmu_def Let_def split: sum.splits)
    from hpf_inv [OF inv z _ _ np this] False np show ?thesis by simp
  qed
  then obtain S1 where
    f: "(if \<not> present (pgt S ! nat ?pg) then handle_page_fault v S va else Inr S) = Inr S1"
    and i1: "sys_inv v S1" by blast
  have s1: "in_range (pgt S1) ?pg" "pagsz S1 = pagsz S" "numframes S1 = numframes S"
    using f r0 handle_page_fault_Inr [of v S va S1]
    by (auto simp: in_range_def split: if_splits)
  from reference_page_ok [OF s1(1), of v c] obtain S2 where
    r: "reference_page v S1 ?pg c = Inr S2" "pagsz S2 = pagsz S1" "numpags S2 = numpags S1"
     "length (pgt S2) = length (pgt S1)" "numframes S2 = numframes S1" "frt S2 = frt S1"
     "listfree S2 = listfree S1" "listoccupied S2 = listoccupied S1"
     "\<forall>j. present (pgt S2 ! j) = present (pgt S1 ! j) \<and> frame (pgt S2 ! j) = frame (pgt S1 ! j)"
    by blast
  have i2: "sys_inv v S2" using sys_inv_cong [of S2 S1 v] r i1 by simp
  let ?S' = "if detailed S2 then emit (EvAccess c va ?pg (frame (pgt S1 ! nat ?pg)) (offset_of S va)) S2 else S2"
  have "sys_inv v ?S' = sys_inv v S2" by (rule sys_inv_cong) simp_all
  with i2 have i3: "sys_inv v ?S'" by simp
  have "sim_mmu v S va c =
      Inr (word_of_int (frame (pgt S1 ! nat ?pg) * pagsz S1 + offset_of S va), ?S')"
    using z False r0 f s1 r(1) by (simp add: sim_mmu_def Let_def)
  with i3 r(2,5) s1(2,3) show ?thesis by simp
qed

lemma run_inv:
  assumes "sys_inv v S" and "(word_of_int (pagsz S) :: u32) \<noteq> 0"
    and "v = FIFO \<or> (\<exists>S'. run v S xs = Inr S')"
  shows "\<exists>S'. run v S xs = Inr S' \<and> sys_inv v S' \<and> pagsz S' = pagsz S \<and>
     numframes S' = numframes S"
  using assms
proof (induction xs arbitrary: S)
  case Nil
  then show ?case by simp
next
  case (Cons x xs)
  obtain va c where x: "x = (va, c)" by (cases x)
  have "v = FIFO \<or> (\<exists>r. sim_mmu v S va c = Inr r)"
    using Cons.prems(3) x by (auto split: sum.splits)
  from sim_mmu_step [OF Cons.prems(1,2) this] obtain pa S1 where
    s: "sim_mmu v S va c = Inr (pa, S1)" "sys_inv v S1" "pagsz S1 = pagsz S"
      "numframes S1 = numframes S" by blast
  have "v = FIFO \<or> (\<exists>S'. run v S1 xs = Inr S')"
    using Cons.prems(3) x s(1) by auto
  from Cons.IH [OF s(2) _ this] s Cons.prems(2) x show ?case by simp
qed

lemma init_inv:
  assumes "0 \<le> numpags S" "numpags S \<le> int (length (pgt S))"
    and "0 < numframes S" "numframes S \<le> int (length (frt S))"
  shows "\<exists>S'. init_tables S = Inr S' \<and> sys_inv v S' \<and> used S' = 0 \<and> pagsz S' = pagsz S \<and>
     numframes S' = numframes S"
proof -
  let ?n = "numframes S"
  from init_tables_ok [OF assms] obtain fs where
    e: "init_tables S =
           Inr (S\<lparr>pgt := replicate (nat (numpags S)) zero_page @ drop (nat (numpags S)) (pgt S),
                  lru := - 1, clock := 0, frt := fs, listfree := ?n - 1,
                  listoccupied := - 1\<rparr>)"
    and fs: "length fs = length (frt S)"
      "\<forall>j. int j < ?n - 1 \<longrightarrow> fs ! j = \<lparr>page = - 1, nextf = int j + 1\<rparr>"
      "fs ! nat (?n - 1) = \<lparr>page = - 1, nextf = 0\<rparr>"
    by blast
  let ?S' = "S\<lparr>pgt := replicate (nat (numpags S)) zero_page @ drop (nat (numpags S)) (pgt S),
                  lru := - 1, clock := 0, frt := fs, listfree := ?n - 1,
                  listoccupied := - 1\<rparr>"
  have u: "used ?S' = 0" using assms fs(3) by (simp add: used_def)
  have N: "nextf (fs ! nat i) = i + 1" if "0 \<le> i" "i < ?n - 1" for i
    using fs(2) [rule_format, of "nat i"] that by simp
  have P: "page (fs ! nat i) = - 1" if "0 \<le> i" "i < ?n" for i
    using fs(2) [rule_format, of "nat i"] fs(3) that by (cases "i = ?n - 1") auto
  have 1: "inv_sizes ?S'" using assms fs u by (simp add: inv_sizes_def)
  have 2: "inv_free ?S'" using assms u N P by (simp add: inv_free_def)
  have 3: "inv_map ?S'" using assms u by (auto simp: inv_map_def nth_append zero_page_def)
  have 4: "inv_occ ?S'" using u by (simp add: inv_occ_def)
  from 1 2 3 4 have "sys_inv v ?S'" by (simp add: sys_inv_def)
  with e u show ?thesis by simp
qed

section \<open>The lists of free and occupied frames\<close>

lemma walk_segment:
  assumes "\<forall>i. cur \<le> i \<and> i < b \<longrightarrow> nextf (fs ! nat i) = i + 1"
    and "start \<notin> {cur + 1..b}" and "0 \<le> cur" "cur \<le> b" and "nat (b - cur + 1) \<le> m"
  shows "walk fs start cur m =
     [cur..b] @ (if nextf (fs ! nat b) = start then []
                 else walk fs start (nextf (fs ! nat b)) (m - nat (b - cur + 1)))"
  using assms
proof (induction m arbitrary: cur)
  case 0
  then show ?case by simp
next
  case (Suc m)
  show ?case
  proof (cases "cur = b")
    case True
    then show ?thesis by simp
  next
    case False
    with Suc.prems have lt: "cur < b" by simp
    with Suc.prems have nx: "nextf (fs ! nat cur) = cur + 1" by simp
    have ns: "cur + 1 \<noteq> start" using Suc.prems(2) lt by auto
    have "walk fs start (cur + 1) m =
      [cur + 1..b] @ (if nextf (fs ! nat b) = start then []
                 else walk fs start (nextf (fs ! nat b)) (m - nat (b - (cur + 1) + 1)))"
      using Suc.prems lt by (intro Suc.IH) auto
    moreover have "[cur..b] = cur # [cur + 1..b]" using lt by (simp add: upto_rec1)
    moreover have "Suc m - nat (b - cur + 1) = m - nat (b - (cur + 1) + 1)"
      using lt Suc.prems by (simp add: nat_diff_distrib nat_add_distrib)
    ultimately show ?thesis using nx ns by simp
  qed
qed

lemma free_frames_inv:
  assumes inv: "sys_inv v S"
  shows "free_frames S = [used S..numframes S - 1]"
proof (cases "listfree S = - 1")
  case True
  then show ?thesis by (simp add: free_frames_def circular_list_def used_def)
next
  case False
  let ?n = "numframes S" and ?k = "used S"
  from inv have s: "0 < ?n" "0 \<le> ?k" by (simp_all add: sys_inv_def inv_sizes_def)
  from inv False have f: "listfree S = ?n - 1" "?k < ?n"
      "\<forall>i. ?k \<le> i \<and> i < ?n - 1 \<longrightarrow> nextf (frt S ! nat i) = i + 1"
    by (simp_all add: sys_inv_def inv_free_def)
  have nl: "nextf (frt S ! nat (?n - 1)) = ?k" using False f(1) by (simp add: used_def)
  have "walk (frt S) ?k ?k (nat ?n) = [?k..?n - 1] @ (if nextf (frt S ! nat (?n - 1)) = ?k then []
       else walk (frt S) ?k (nextf (frt S ! nat (?n - 1))) (nat ?n - nat (?n - 1 - ?k + 1)))"
    using f s by (intro walk_segment) auto
  with nl have "walk (frt S) ?k ?k (nat ?n) = [?k..?n - 1]" by simp
  with False f(1) nl show ?thesis by (simp add: free_frames_def circular_list_def)
qed

lemma occupied_fifo_inv:
  assumes inv: "sys_inv FIFO S"
  shows "\<exists>h. 0 \<le> h \<and> h \<le> used S \<and>
     occupied_frames FIFO S = [h..used S - 1] @ [0..h - 1]"
proof (cases "used S = 0")
  case True
  with inv have "listoccupied S = - 1" by (simp add: sys_inv_def inv_occ_def)
  with True show ?thesis
    by (intro exI [of _ 0]) (simp add: occupied_frames_def circular_list_def)
next
  case False
  let ?n = "numframes S" and ?k = "used S" and ?lo = "listoccupied S"
  from inv have s: "0 < ?n" "0 \<le> ?k" "?k \<le> ?n" by (simp_all add: sys_inv_def inv_sizes_def)
  from inv False have o: "0 \<le> ?lo" "?lo < ?k"
      "\<forall>i. 0 \<le> i \<and> i < ?k - 1 \<longrightarrow> nextf (frt S ! nat i) = i + 1"
      "nextf (frt S ! nat (?k - 1)) = 0"
    by (simp_all add: sys_inv_def inv_occ_def)
  let ?h = "nextf (frt S ! nat ?lo)"
  have ne: "?lo \<noteq> - 1" using o by simp
  show ?thesis
  proof (cases "?lo = ?k - 1")
    case True
    then have h: "?h = 0" using o(4) by simp
    have "walk (frt S) 0 0 (nat ?n) = [0..?k - 1] @ (if nextf (frt S ! nat (?k - 1)) = 0 then []
       else walk (frt S) 0 (nextf (frt S ! nat (?k - 1))) (nat ?n - nat (?k - 1 - 0 + 1)))"
      using o s False by (intro walk_segment) auto
    with o(4) have "walk (frt S) 0 0 (nat ?n) = [0..?k - 1]" by simp
    with h ne have "occupied_frames FIFO S = [0..?k - 1] @ [0..0 - 1]"
      by (simp add: occupied_frames_def circular_list_def)
    with s show ?thesis by (intro exI [of _ 0]) simp
  next
    case F: False
    with o have lt: "?lo < ?k - 1" by simp
    with o have h: "?h = ?lo + 1" by simp
    have 1: "walk (frt S) ?h ?h (nat ?n) =
       [?h..?k - 1] @ (if nextf (frt S ! nat (?k - 1)) = ?h then []
       else walk (frt S) ?h (nextf (frt S ! nat (?k - 1))) (nat ?n - nat (?k - 1 - ?h + 1)))"
      using o s h lt by (intro walk_segment) auto
    have 2: "walk (frt S) ?h 0 (nat ?n - nat (?k - 1 - ?h + 1)) =
       [0..?lo] @ (if nextf (frt S ! nat ?lo) = ?h then []
       else walk (frt S) ?h (nextf (frt S ! nat ?lo)) (nat ?n - nat (?k - 1 - ?h + 1) - nat (?lo - 0 + 1)))"
      using o s h lt by (intro walk_segment) auto
    from 1 2 o(4) h o(1) have "walk (frt S) ?h ?h (nat ?n) = [?h..?k - 1] @ [0..?h - 1]"
      by simp
    with ne have "occupied_frames FIFO S = [?h..?k - 1] @ [0..?h - 1]"
      by (simp add: occupied_frames_def circular_list_def)
    moreover have "0 \<le> ?h" "?h \<le> ?k" using h o lt by simp_all
    ultimately show ?thesis by blast
  qed
qed

lemma occupied_lru_inv:
  assumes inv: "sys_inv v S"
  shows "occupied_frames LRU S = [0..used S - 1]"
proof -
  let ?n = "numframes S" and ?k = "used S"
  from inv have s: "0 < ?n" "0 \<le> ?k" "?k \<le> ?n" by (simp_all add: sys_inv_def inv_sizes_def)
  from inv have m0: "\<forall>i\<in>{0..<?k}. 0 \<le> page (frt S ! nat i)"
    by (simp add: sys_inv_def inv_map_def)
  have m: "page (frt S ! nat i) \<noteq> - 1" if "0 \<le> i" "i < ?k" for i
  proof -
    from that have "i \<in> {0..<?k}" by simp
    with m0 have "0 \<le> page (frt S ! nat i)" by blast
    then show ?thesis by simp
  qed
  have f: "\<forall>i\<in>{?k..<?n}. page (frt S ! nat i) = - 1"
  proof (cases "listfree S = - 1")
    case True
    then show ?thesis by (simp add: used_def)
  next
    case False
    with inv show ?thesis by (simp add: sys_inv_def inv_free_def)
  qed
  have sp: "[0..?n - 1] = [0..?k - 1] @ [?k..?n - 1]"
    using s upto_split2 [of 0 "?k - 1" "?n - 1"] by (cases "?k = 0") auto
  have a: "filter (\<lambda>f. page (frt S ! nat f) \<noteq> - 1) [0..?k - 1] = [0..?k - 1]"
    by (intro filter_True) (simp add: m)
  have b: "filter (\<lambda>f. page (frt S ! nat f) \<noteq> - 1) [?k..?n - 1] = []"
    using f by (intro filter_False) auto
  show ?thesis unfolding occupied_frames_def by (simp add: sp a b)
qed

lemma occupied_frames_inv:
  assumes inv: "sys_inv v S"
  shows "distinct (occupied_frames v S) \<and> set (occupied_frames v S) = {0..<used S} \<and>
     int (length (occupied_frames v S)) = used S"
proof (cases v)
  case LRU
  from inv have "0 \<le> used S" by (simp add: sys_inv_def inv_sizes_def)
  with occupied_lru_inv [OF inv] LRU show ?thesis by auto
next
  case FIFO
  with inv occupied_fifo_inv [of S] obtain h where
    h: "0 \<le> h" "h \<le> used S" "occupied_frames FIFO S = [h..used S - 1] @ [0..h - 1]"
    by blast
  then show ?thesis using FIFO by auto
qed

lemma sim_mmu_Inr_pagsz:
  "sim_mmu v S va c = Inr r \<Longrightarrow> (word_of_int (pagsz S) :: u32) \<noteq> 0"
  by (auto simp: sim_mmu_def split: if_splits)

lemma run_Inr_inv:
  assumes "sys_inv v S" and "run v S xs = Inr S'"
  shows "sys_inv v S' \<and> numframes S' = numframes S"
proof (cases xs)
  case Nil
  with assms show ?thesis by simp
next
  case (Cons x ys)
  obtain va c where x: "x = (va, c)" by (cases x)
  from assms(2) Cons x obtain r where "sim_mmu v S va c = Inr r"
    by (auto split: sum.splits)
  from run_inv [OF assms(1) sim_mmu_Inr_pagsz [OF this], of xs] assms(2)
  show ?thesis by auto
qed

section \<open>The example runs\<close>

lemmas sim_defs = sim_mmu_def handle_page_fault_def reference_page_def reference_page_fifo_def
  reference_page_lru_def choose_page_to_be_replaced_def choose_page_to_be_replaced_fifo_def
  choose_page_to_be_replaced_lru_def replace_page_def replace_page_fifo_def replace_page_lru_def
  occupy_free_frame_def occupy_free_frame_fifo_def occupy_free_frame_lru_def
  page_of_def offset_of_def in_range_def pgt_upd_def frt_upd_def emit_def Let_def
  lru_scan.simps zero_page_def

lemma run_fifo1: "run FIFO S_init [(0, CHR ''R'')] = Inr S_fifo1"
  by (simp add: sim_defs S_init_def S_fifo1_def)

lemma run_fifo3: "run FIFO S_init [(0, CHR ''R''), (100, CHR ''R''), (200, CHR ''R'')] = Inr S_fifo3"
  by (simp add: sim_defs S_init_def S_fifo3_def)

lemma run_lru_full: "run LRU S_init [(0, CHR ''R''), (100, CHR ''W''), (0, CHR ''W'')] = Inr S_lru_full"
  by (simp add: sim_defs S_init_def S_lru_full_def)


lemma sim_lru_full: "sim_mmu LRU S_lru_full 200 (CHR ''R'') = Inr (100, S_lru_final)"
  by (simp add: sim_defs S_lru_full_def S_lru_final_def)


lemma sim_wrap: "sim_mmu LRU S_wrap 0 (CHR ''W'') = Inr (0, S_stuck)"
  by (simp add: sim_defs S_wrap_def S_stuck_def)

lemma choose_stuck: "choose_page_to_be_replaced LRU S_stuck = Inr (- 1, S_stuck)"
  by (simp add: sim_defs S_stuck_def)

lemma hpf_stuck: "handle_page_fault LRU S_stuck 100 = Inl OutOfBounds"
  by (simp add: sim_defs S_stuck_def)

lemma sim_stuck: "sim_mmu LRU S_stuck 100 (CHR ''R'') = Inl OutOfBounds"
  by (simp add: sim_defs S_stuck_def)

lemma sim_lru_again: "sim_mmu LRU S_lru_final 200 (CHR ''W'') = Inr (100, S_lru_again)"
  by (simp add: sim_defs S_lru_final_def S_lru_again_def)

lemma sim_stuck_write: "sim_mmu LRU S_stuck 100 (CHR ''W'') = Inl OutOfBounds"
  by (simp add: sim_defs S_stuck_def)

text \<open>A counter at the largest \<^verbatim>\<open>int\<close> wraps to the least one when it is incremented.\<close>

lemma illegal_reference_at_int_max:
  "sim_mmu FIFO (S_init\<lparr>numillegalrefs := 2147483647\<rparr>) 500 (CHR ''R'') =
     Inr (NOT 0, S_init\<lparr>numillegalrefs := - 2147483648\<rparr>)"
  "sint (numillegalrefs (S_init\<lparr>numillegalrefs := - 2147483648\<rparr>)) = - 2147483648"
  by (simp_all add: sim_defs S_init_def)

lemma free_fifo1: "free_frames S_fifo1 = [1]" "occupied_frames FIFO S_fifo1 = [0]"
  by (simp_all add: free_frames_def occupied_frames_def circular_list_def S_fifo1_def eval_nat_numeral)

section \<open>Replacing a page\<close>







section \<open>The LRU scan\<close>

lemma lru_scan_least:
  assumes "0 \<le> i" "n \<le> int (length ps)"
  shows "\<exists>v m. lru_scan ps n i v0 m0 = Inr (v, m) \<and> m \<le> m0 \<and>
     (\<forall>j. i \<le> j \<and> j < n \<and> present (ps ! nat j) \<longrightarrow> m \<le> timestamp (ps ! nat j)) \<and>
     ((v = v0 \<and> m = m0) \<or>
      (i \<le> v \<and> v < n \<and> present (ps ! nat v) \<and> timestamp (ps ! nat v) = m \<and> m < m0 \<and>
       (\<forall>j. i \<le> j \<and> j < v \<and> present (ps ! nat j) \<longrightarrow> m < timestamp (ps ! nat j))))"
  using assms
proof (induction ps n i v0 m0 rule: lru_scan.induct)
  case (1 ps n i victim mn)
  show ?case
  proof (cases "i < n")
    case False
    then have "lru_scan ps n i victim mn = Inr (victim, mn)"
      by (simp add: lru_scan.simps [of ps n i])
    moreover have "\<forall>j. i \<le> j \<and> j < n \<and> present (ps ! nat j) \<longrightarrow> mn \<le> timestamp (ps ! nat j)"
      using False by auto
    ultimately show ?thesis by simp
  next
    case True
    with "1.prems" have r: "in_range ps i" by (simp add: in_range_def)
    let ?t = "timestamp (ps ! nat i)"
    show ?thesis
    proof (cases "present (ps ! nat i) \<and> ?t < mn")
      case t: True
      from "1.IH"(1) [OF True _ t] r "1.prems" obtain v m where
        h: "lru_scan ps n (i + 1) i ?t = Inr (v, m)" "m \<le> ?t"
         "\<forall>j. i + 1 \<le> j \<and> j < n \<and> present (ps ! nat j) \<longrightarrow> m \<le> timestamp (ps ! nat j)"
         "(v = i \<and> m = ?t) \<or>
          (i + 1 \<le> v \<and> v < n \<and> present (ps ! nat v) \<and> timestamp (ps ! nat v) = m \<and> m < ?t \<and>
           (\<forall>j. i + 1 \<le> j \<and> j < v \<and> present (ps ! nat j) \<longrightarrow> m < timestamp (ps ! nat j)))"
        by auto
      have e: "lru_scan ps n i victim mn = Inr (v, m)"
        using True r t h(1) by (simp add: lru_scan.simps [of ps n i])
      from t have "?t < mn" by blast
      then have tm: "?t \<le> mn" by (rule less_imp_le)
      have a: "m \<le> mn" using h(2) tm by (rule order.trans)
      have b: "m \<le> timestamp (ps ! nat j)" if "i \<le> j" "j < n" "present (ps ! nat j)" for j
      proof (cases "j = i")
        case True
        then show ?thesis using h(2) by simp
      next
        case False
        with that h(3) show ?thesis by simp
      qed
      have c: "i \<le> v \<and> v < n \<and> present (ps ! nat v) \<and> timestamp (ps ! nat v) = m \<and> m < mn \<and>
       (\<forall>j. i \<le> j \<and> j < v \<and> present (ps ! nat j) \<longrightarrow> m < timestamp (ps ! nat j))"
      proof (rule disjE [OF h(4)])
        assume "v = i \<and> m = ?t"
        with True t show ?thesis by simp
      next
        assume x: "i + 1 \<le> v \<and> v < n \<and> present (ps ! nat v) \<and> timestamp (ps ! nat v) = m \<and>
           m < ?t \<and>
           (\<forall>j. i + 1 \<le> j \<and> j < v \<and> present (ps ! nat j) \<longrightarrow> m < timestamp (ps ! nat j))"
        have "m < timestamp (ps ! nat j)" if "i \<le> j" "j < v" "present (ps ! nat j)" for j
        proof (cases "j = i")
          case True
          then show ?thesis using x by simp
        next
          case False
          with that x show ?thesis by simp
        qed
        moreover have "m < mn" using x t by (blast intro: order.strict_trans)
        ultimately show ?thesis using x by auto
      qed
      from e a b c show ?thesis by blast
    next
      case f: False
      from "1.IH"(2) [OF True _ f] r "1.prems" obtain v m where
        h: "lru_scan ps n (i + 1) victim mn = Inr (v, m)" "m \<le> mn"
         "\<forall>j. i + 1 \<le> j \<and> j < n \<and> present (ps ! nat j) \<longrightarrow> m \<le> timestamp (ps ! nat j)"
         "(v = victim \<and> m = mn) \<or>
          (i + 1 \<le> v \<and> v < n \<and> present (ps ! nat v) \<and> timestamp (ps ! nat v) = m \<and> m < mn \<and>
           (\<forall>j. i + 1 \<le> j \<and> j < v \<and> present (ps ! nat j) \<longrightarrow> m < timestamp (ps ! nat j)))"
        by auto
      have e: "lru_scan ps n i victim mn = Inr (v, m)"
        using True r f h(1) by (auto simp add: lru_scan.simps [of ps n i])
      have b: "m \<le> timestamp (ps ! nat j)" if "i \<le> j" "j < n" "present (ps ! nat j)" for j
      proof (cases "j = i")
        case True
        with that f have "mn \<le> timestamp (ps ! nat j)" by (simp add: not_less)
        with h(2) show ?thesis by (rule order.trans)
      next
        case False
        with that h(3) show ?thesis by simp
      qed
      have c: "(v = victim \<and> m = mn) \<or>
        (i \<le> v \<and> v < n \<and> present (ps ! nat v) \<and> timestamp (ps ! nat v) = m \<and> m < mn \<and>
         (\<forall>j. i \<le> j \<and> j < v \<and> present (ps ! nat j) \<longrightarrow> m < timestamp (ps ! nat j)))"
      proof (rule disjE [OF h(4)])
        assume "v = victim \<and> m = mn"
        then show ?thesis by simp
      next
        assume x: "i + 1 \<le> v \<and> v < n \<and> present (ps ! nat v) \<and> timestamp (ps ! nat v) = m \<and>
           m < mn \<and>
           (\<forall>j. i + 1 \<le> j \<and> j < v \<and> present (ps ! nat j) \<longrightarrow> m < timestamp (ps ! nat j))"
        have "m < timestamp (ps ! nat j)" if "i \<le> j" "j < v" "present (ps ! nat j)" for j
        proof (cases "j = i")
          case True
          with that f have "mn \<le> timestamp (ps ! nat j)" by (simp add: not_less)
          with x show ?thesis by (blast intro: order.strict_trans2)
        next
          case False
          with that x show ?thesis by simp
        qed
        with x show ?thesis by auto
      qed
      from e h(2) b c show ?thesis by blast
    qed
  qed
qed

text \<open>When some resident page has a timestamp below the maximum, the LRU choice is the
  resident page with the least timestamp, the first such page in index order.\<close>

lemma choose_lru_least:
  assumes n: "numpags S \<le> int (length (pgt S))"
    and q: "0 \<le> q" "q < numpags S" "present (pgt S ! nat q)" "timestamp (pgt S ! nat q) \<noteq> NOT 0"
  shows "\<exists>victim S'. choose_page_to_be_replaced LRU S = Inr (victim, S') \<and>
     0 \<le> victim \<and> victim < numpags S \<and> present (pgt S ! nat victim) \<and>
     (\<forall>j. 0 \<le> j \<and> j < numpags S \<and> present (pgt S ! nat j) \<longrightarrow>
        timestamp (pgt S ! nat victim) \<le> timestamp (pgt S ! nat j)) \<and>
     (\<forall>j. 0 \<le> j \<and> j < victim \<and> present (pgt S ! nat j) \<longrightarrow>
        timestamp (pgt S ! nat victim) < timestamp (pgt S ! nat j))"
proof -
  from lru_scan_least [of 0 "numpags S" "pgt S" "- 1" "NOT 0"] n obtain v m where
    h: "lru_scan (pgt S) (numpags S) 0 (- 1) (NOT 0) = Inr (v, m)"
      "\<forall>j. 0 \<le> j \<and> j < numpags S \<and> present (pgt S ! nat j) \<longrightarrow> m \<le> timestamp (pgt S ! nat j)"
      "(v = - 1 \<and> m = NOT 0) \<or>
       (0 \<le> v \<and> v < numpags S \<and> present (pgt S ! nat v) \<and> timestamp (pgt S ! nat v) = m \<and>
        m < NOT 0 \<and>
        (\<forall>j. 0 \<le> j \<and> j < v \<and> present (pgt S ! nat j) \<longrightarrow> m < timestamp (pgt S ! nat j)))"
    by auto
  have "m \<noteq> NOT 0"
  proof
    assume "m = NOT 0"
    with h(2) q have "NOT 0 \<le> timestamp (pgt S ! nat q)" by blast
    with q(4) show False by (simp add: word_order.extremum_unique)
  qed
  with h(3) have v: "0 \<le> v" "v < numpags S" "present (pgt S ! nat v)"
      "timestamp (pgt S ! nat v) = m"
      "\<forall>j. 0 \<le> j \<and> j < v \<and> present (pgt S ! nat j) \<longrightarrow> m < timestamp (pgt S ! nat j)"
    by auto
  have r: "in_range (pgt S) v" using v n by (simp add: in_range_def)
  have "\<exists>S'. choose_page_to_be_replaced LRU S = Inr (v, S')"
    using h(1) r by (simp add: choose_page_to_be_replaced_def choose_page_to_be_replaced_lru_def)
  with v h(2) show ?thesis by blast
qed

lemma run_fifo2: "run FIFO S_init [(0, CHR ''R''), (100, CHR ''R'')] = Inr S_fifo2"
  by (simp add: sim_defs S_init_def S_fifo2_def)

lemma choose_fifo2: "choose_page_to_be_replaced FIFO S_fifo2 = Inr (0, S_fifo2)"
  by (simp add: sim_defs S_fifo2_def)


section \<open>The effect of a page fault on the tables\<close>

lemma page_of_pagsz: "pagsz T = pagsz S \<Longrightarrow> page_of T va = page_of S va"
  by (simp add: page_of_def)

lemma sim_mmu_fault_decomp:
  assumes z: "(word_of_int (pagsz S) :: u32) \<noteq> 0"
    and pg: "0 \<le> page_of S va" "page_of S va < numpags S"
    and np: "\<not> present (pgt S ! nat (page_of S va))"
    and h: "handle_page_fault v S va = Inr S1"
  shows "\<exists>pa S'. sim_mmu v S va c = Inr (pa, S') \<and> pagsz S' = pagsz S \<and>
     numpags S' = numpags S \<and> numframes S' = numframes S \<and>
     numpagefaults S' = numpagefaults S + 1 \<and> frt S' = frt S1 \<and>
     listfree S' = listfree S1 \<and> listoccupied S' = listoccupied S1 \<and>
     used S' = used S1 \<and> sys_inv v S' = sys_inv v S1 \<and>
     (\<forall>j. present (pgt S' ! j) = present (pgt S1 ! j) \<and>
          frame (pgt S' ! j) = frame (pgt S1 ! j))"
proof -
  let ?pg = "page_of S va"
  note f = handle_page_fault_Inr [OF h]
  have r1: "in_range (pgt S1) ?pg" using f by (simp add: in_range_def)
  from reference_page_ok [OF r1, of v c] obtain S2 where
    r: "reference_page v S1 ?pg c = Inr S2" "pagsz S2 = pagsz S1" "numpags S2 = numpags S1"
     "length (pgt S2) = length (pgt S1)" "numpagefaults S2 = numpagefaults S1"
     "numframes S2 = numframes S1" "frt S2 = frt S1"
     "listfree S2 = listfree S1" "listoccupied S2 = listoccupied S1"
     "\<forall>j. present (pgt S2 ! j) = present (pgt S1 ! j) \<and> frame (pgt S2 ! j) = frame (pgt S1 ! j)"
    by blast
  let ?S' = "if detailed S2 then emit (EvAccess c va ?pg (frame (pgt S1 ! nat ?pg)) (offset_of S va)) S2 else S2"
  have e: "sim_mmu v S va c =
      Inr (word_of_int (frame (pgt S1 ! nat ?pg) * pagsz S1 + offset_of S va), ?S')"
    using z pg np h f r1 r(1) by (simp add: sim_mmu_def Let_def)
  have i: "sys_inv v ?S' = sys_inv v S1"
    by (rule sys_inv_cong) (simp_all add: r)
  have u: "used ?S' = used S1" using r by (simp add: used_def)
  have p: "\<forall>j. present (pgt ?S' ! j) = present (pgt S1 ! j) \<and>
          frame (pgt ?S' ! j) = frame (pgt S1 ! j)"
    using r(10) by simp
  show ?thesis
    using e i u p r f by (intro exI [of _ "word_of_int (frame (pgt S1 ! nat ?pg) * pagsz S1 + offset_of S va)"] exI [of _ ?S']) simp
qed

lemma hpf_free_effect:
  assumes inv: "sys_inv v S" and z: "(word_of_int (pagsz S) :: u32) \<noteq> 0"
    and lf: "listfree S \<noteq> - 1"
    and pg: "0 \<le> page_of S va" "page_of S va < numpags S"
    and h: "handle_page_fault v S va = Inr S'"
  shows "(\<forall>p. 0 \<le> p \<and> p < numpags S \<longrightarrow>
            present (pgt S' ! nat p) = (p = page_of S va \<or> present (pgt S ! nat p))) \<and>
     (\<forall>i. 0 \<le> i \<and> i < numframes S \<longrightarrow>
        page (frt S' ! nat i) = (if i = used S then page_of S va else page (frt S ! nat i))) \<and>
     (v = FIFO \<longrightarrow> listoccupied S' = used S)"
proof -
  let ?n = "numframes S" and ?k = "used S" and ?pg = "page_of S va"
  let ?T = "unlinked S va"
  from inv have s: "0 < ?n" "?n \<le> int (length (frt S))" "0 \<le> numpags S"
      "numpags S \<le> int (length (pgt S))" "0 \<le> ?k" "?k \<le> ?n"
    by (simp_all add: sys_inv_def inv_sizes_def)
  from inv lf have f: "listfree S = ?n - 1" "?k < ?n"
    by (simp_all add: sys_inv_def inv_free_def)
  have r: "in_range (frt S) (listfree S)" "in_range (frt S) ?k" "in_range (pgt S) ?pg"
    using s f pg by (simp_all add: in_range_def)
  note T = unlinked_fields [OF lf r(1), of va]
  have TP: "page (frt ?T ! nat i) = page (frt S ! nat i)" if "0 \<le> i" "i < ?n" for i
    using T(7) [rule_format, of i] that s by auto
  have rT: "in_range (pgt ?T) ?pg" "in_range (frt ?T) ?k"
    using r T by (simp_all add: in_range_def)
  have e: "occupy_free_frame v ?T ?k ?pg = Inr S'"
    using hpf_free_unfold [OF z lf r(1,2), of v va] h by simp
  have G: "pgt S' = (pgt S)[nat ?pg := (pgt S ! nat ?pg)\<lparr>present := True, frame := ?k,
      modified := False, referenced := False, timestamp := 0\<rparr>]"
    using occupy_free_frame_Inr [OF e] T(3) by simp
  have A: "present (pgt S' ! nat p) = (p = ?pg \<or> present (pgt S ! nat p))"
    if "0 \<le> p" "p < numpags S" for p
    using that G pg s by (simp add: nth_upd_int)
  have B: "(\<forall>i. 0 \<le> i \<and> i < ?n \<longrightarrow>
        page (frt S' ! nat i) = (if i = ?k then ?pg else page (frt S ! nat i))) \<and>
     (v = FIFO \<longrightarrow> listoccupied S' = ?k)"
  proof (cases v)
    case LRU
    from occupy_lru_result [OF rT] e LRU have
      "\<forall>i. 0 \<le> i \<and> i < int (length (frt ?T)) \<longrightarrow>
          page (frt S' ! nat i) = (if i = ?k then ?pg else page (frt ?T ! nat i))"
      by (auto simp: occupy_free_frame_def)
    with TP T(4) s LRU show ?thesis by auto
  next
    case FIFO
    from inv FIFO have oc: "if ?k = 0 then listoccupied S = - 1
      else 0 \<le> listoccupied S \<and> listoccupied S < ?k \<and>
           (?k < ?n \<longrightarrow> listoccupied S = ?k - 1)"
      by (simp add: sys_inv_def inv_occ_def)
    have c: "listoccupied ?T = - 1 \<or>
        (in_range (frt ?T) (listoccupied ?T) \<and> listoccupied ?T \<noteq> ?k)"
      using oc s f(2) T(4,5) by (auto simp: in_range_def split: if_splits)
    from occupy_fifo_result [OF rT c] e FIFO have
      "listoccupied S' = ?k \<and> (\<forall>i. 0 \<le> i \<and> i < int (length (frt ?T)) \<longrightarrow>
          page (frt S' ! nat i) = (if i = ?k then ?pg else page (frt ?T ! nat i)))"
      by (auto simp: occupy_free_frame_def)
    with TP T(4) s show ?thesis by auto
  qed
  from A B show ?thesis by blast
qed

lemma hpf_evict_effect:
  assumes inv: "sys_inv v S" and z: "(word_of_int (pagsz S) :: u32) \<noteq> 0"
    and lf: "listfree S = - 1"
    and pg: "0 \<le> page_of S va" "page_of S va < numpags S"
    and np: "\<not> present (pgt S ! nat (page_of S va))"
    and ch: "choose_page_to_be_replaced v (faulted S va) = Inr (victim, S3)"
    and vic: "0 \<le> victim" "victim < numpags S" "present (pgt S ! nat victim)"
    and h: "handle_page_fault v S va = Inr S'"
  shows "(\<forall>p. 0 \<le> p \<and> p < numpags S \<longrightarrow>
            present (pgt S' ! nat p) =
              (p = page_of S va \<or> (present (pgt S ! nat p) \<and> p \<noteq> victim))) \<and>
     (\<forall>i. 0 \<le> i \<longrightarrow>
        page (frt S' ! nat i) =
          (if i = frame (pgt S ! nat victim) then page_of S va else page (frt S ! nat i)))"
proof -
  let ?pg = "page_of S va"
  note c = choose_Inr [OF ch]
  from h ch hpf_evict_unfold [OF z lf, of v va]
  have r: "replace_page v S3 victim ?pg = Inr S'" by simp
  from r have rr: "in_range (pgt S3) victim" "in_range (pgt S3) ?pg"
    "in_range (frt S3) (frame (pgt S3 ! nat victim))"
    by (cases v; auto simp: replace_page_def replace_page_fifo_def replace_page_lru_def
        Let_def upd_defs split: if_splits)+
  have ne: "victim \<noteq> ?pg" using vic np by auto
  from replace_result [OF rr, of v] r c ne have
    o: "present (pgt S' ! nat ?pg)" "\<not> present (pgt S' ! nat victim)"
      "\<forall>p. 0 \<le> p \<and> p \<noteq> ?pg \<and> p \<noteq> victim \<longrightarrow> pgt S' ! nat p = pgt S ! nat p"
      "\<forall>i. 0 \<le> i \<longrightarrow>
        page (frt S' ! nat i) =
          (if i = frame (pgt S ! nat victim) then ?pg else page (frt S ! nat i))"
    by auto
  have "present (pgt S' ! nat p) = (p = ?pg \<or> (present (pgt S ! nat p) \<and> p \<noteq> victim))"
    if "0 \<le> p" "p < numpags S" for p
    using o(1,2) o(3) [rule_format, of p] that by (cases "p = ?pg"; cases "p = victim") auto
  with o(4) show ?thesis by blast
qed

lemma sim_mmu_free:
  assumes inv: "sys_inv v S" and z: "(word_of_int (pagsz S) :: u32) \<noteq> 0"
    and lf: "listfree S \<noteq> - 1"
    and pg: "0 \<le> page_of S va" "page_of S va < numpags S"
    and np: "\<not> present (pgt S ! nat (page_of S va))"
  shows "\<exists>pa S'. sim_mmu v S va c = Inr (pa, S') \<and> sys_inv v S' \<and> pagsz S' = pagsz S \<and>
     numpags S' = numpags S \<and> numframes S' = numframes S \<and> used S' = used S + 1 \<and>
     numpagefaults S' = numpagefaults S + 1 \<and>
     (\<forall>p. 0 \<le> p \<and> p < numpags S \<longrightarrow>
            present (pgt S' ! nat p) = (p = page_of S va \<or> present (pgt S ! nat p))) \<and>
     (\<forall>i. 0 \<le> i \<and> i < numframes S \<longrightarrow>
        page (frt S' ! nat i) = (if i = used S then page_of S va else page (frt S ! nat i))) \<and>
     (v = FIFO \<longrightarrow> listoccupied S' = used S)"
proof -
  from hpf_free_inv [OF inv z lf pg np] obtain S1 where
    h: "handle_page_fault v S va = Inr S1" "sys_inv v S1" "used S1 = used S + 1" by blast
  note e = hpf_free_effect [OF inv z lf pg h(1)]
  from sim_mmu_fault_decomp [OF z pg np h(1), of c] obtain pa S' where
    d: "sim_mmu v S va c = Inr (pa, S')" "pagsz S' = pagsz S"
     "numpags S' = numpags S" "numframes S' = numframes S"
     "numpagefaults S' = numpagefaults S + 1" "frt S' = frt S1"
     "listoccupied S' = listoccupied S1"
     "used S' = used S1" "sys_inv v S' = sys_inv v S1"
     "\<forall>j. present (pgt S' ! j) = present (pgt S1 ! j) \<and>
          frame (pgt S' ! j) = frame (pgt S1 ! j)"
    by blast
  show ?thesis
    using d h(2,3) e by (intro exI [of _ pa] exI [of _ S']) simp
qed

lemma fifo_victim_frame:
  assumes inv: "sys_inv FIFO S" and lf: "listfree S = - 1"
  shows "0 \<le> nextf (frt S ! nat (listoccupied S)) \<and>
     nextf (frt S ! nat (listoccupied S)) < numframes S \<and>
     frame (pgt S ! nat (page (frt S ! nat (nextf (frt S ! nat (listoccupied S)))))) =
       nextf (frt S ! nat (listoccupied S))"
proof -
  let ?n = "numframes S" and ?lo = "listoccupied S"
  from inv have s: "0 < ?n" by (simp add: sys_inv_def inv_sizes_def)
  have k: "used S = ?n" using lf by (simp add: used_def)
  from inv k s have o: "0 \<le> ?lo" "?lo < ?n" "\<forall>i\<in>{0..<?n - 1}. nextf (frt S ! nat i) = i + 1"
      "nextf (frt S ! nat (?n - 1)) = 0"
    by (auto simp: sys_inv_def inv_occ_def)
  let ?vf = "nextf (frt S ! nat ?lo)"
  have vf: "0 \<le> ?vf \<and> ?vf < ?n"
  proof (cases "?lo = ?n - 1")
    case True
    then show ?thesis using o(4) s by simp
  next
    case False
    with o have "?lo \<in> {0..<?n - 1}" by simp
    with o(3) have "?vf = ?lo + 1" by blast
    with o False show ?thesis by simp
  qed
  with inv k show ?thesis by (simp add: sys_inv_def inv_map_def)
qed

lemma sim_mmu_evict_fifo:
  assumes inv: "sys_inv FIFO S" and z: "(word_of_int (pagsz S) :: u32) \<noteq> 0"
    and lf: "listfree S = - 1"
    and pg: "0 \<le> page_of S va" "page_of S va < numpags S"
    and np: "\<not> present (pgt S ! nat (page_of S va))"
  shows "\<exists>pa S'. sim_mmu FIFO S va c = Inr (pa, S') \<and> sys_inv FIFO S' \<and> pagsz S' = pagsz S \<and>
     numpags S' = numpags S \<and> numframes S' = numframes S \<and> used S' = used S \<and>
     numpagefaults S' = numpagefaults S + 1 \<and>
     (\<forall>p. 0 \<le> p \<and> p < numpags S \<longrightarrow>
        present (pgt S' ! nat p) =
          (p = page_of S va \<or>
           (present (pgt S ! nat p) \<and>
            p \<noteq> page (frt S ! nat (nextf (frt S ! nat (listoccupied S))))))) \<and>
     (\<forall>i. 0 \<le> i \<and> i < numframes S \<longrightarrow>
        page (frt S' ! nat i) =
          (if i = nextf (frt S ! nat (listoccupied S)) then page_of S va
           else page (frt S ! nat i)))"
proof -
  let ?vf = "nextf (frt S ! nat (listoccupied S))"
  from choose_fifo_inv [OF inv lf, of va] obtain victim S3 where
    c: "choose_page_to_be_replaced FIFO (faulted S va) = Inr (victim, S3)"
      "0 \<le> victim" "victim < numpags S" "present (pgt S ! nat victim)"
      "victim = page (frt S ! nat ?vf)"
    by blast
  from hpf_evict_step [OF inv z lf pg np c(1-4)] obtain S1 where
    h: "handle_page_fault FIFO S va = Inr S1" "sys_inv FIFO S1" "used S1 = used S" by blast
  note e = hpf_evict_effect [OF inv z lf pg np c(1-4) h(1)]
  note vf = fifo_victim_frame [OF inv lf]
  from sim_mmu_fault_decomp [OF z pg np h(1), of c] obtain pa S' where
    d: "sim_mmu FIFO S va c = Inr (pa, S')" "pagsz S' = pagsz S"
     "numpags S' = numpags S" "numframes S' = numframes S"
     "numpagefaults S' = numpagefaults S + 1" "frt S' = frt S1"
     "used S' = used S1" "sys_inv FIFO S' = sys_inv FIFO S1"
     "\<forall>j. present (pgt S' ! j) = present (pgt S1 ! j) \<and>
          frame (pgt S' ! j) = frame (pgt S1 ! j)"
    by blast
  show ?thesis
    using d h(2,3) e vf c(5) by (intro exI [of _ pa] exI [of _ S']) simp
qed

lemma init_inv_clean:
  assumes "0 \<le> numpags S" "numpags S \<le> int (length (pgt S))"
    and "0 < numframes S" "numframes S \<le> int (length (frt S))"
  shows "\<exists>S'. init_tables S = Inr S' \<and> sys_inv v S' \<and> used S' = 0 \<and> pagsz S' = pagsz S \<and>
     numframes S' = numframes S \<and> numpags S' = numpags S \<and>
     numpagefaults S' = numpagefaults S \<and>
     (\<forall>p. 0 \<le> p \<and> p < numpags S \<longrightarrow> \<not> present (pgt S' ! nat p))"
proof -
  from init_inv [OF assms, of v] obtain S' where
    i: "init_tables S = Inr S'" "sys_inv v S'" "used S' = 0" "pagsz S' = pagsz S"
      "numframes S' = numframes S" by blast
  from init_tables_ok [OF assms] i(1) have
    "numpags S' = numpags S \<and> numpagefaults S' = numpagefaults S \<and>
     pgt S' = replicate (nat (numpags S)) zero_page @ drop (nat (numpags S)) (pgt S)"
    by auto
  then have "numpags S' = numpags S \<and> numpagefaults S' = numpagefaults S \<and>
     (\<forall>p. 0 \<le> p \<and> p < numpags S \<longrightarrow> \<not> present (pgt S' ! nat p))"
    by (auto simp: nth_append zero_page_def)
  with i show ?thesis by blast
qed

lemma used_full: "sys_inv v S \<Longrightarrow> used S = numframes S \<Longrightarrow> listfree S = - 1"
  by (auto simp: sys_inv_def inv_free_def)

lemma used_not_full: "used S < numframes S \<Longrightarrow> listfree S \<noteq> - 1"
  by (auto simp: used_def)

lemma present_in_frame:
  assumes inv: "sys_inv v S" and p: "0 \<le> p" "p < numpags S" "present (pgt S ! nat p)"
  shows "0 \<le> frame (pgt S ! nat p) \<and> frame (pgt S ! nat p) < numframes S \<and>
     page (frt S ! nat (frame (pgt S ! nat p))) = p"
proof -
  from inv have "used S \<le> numframes S" by (simp add: sys_inv_def inv_sizes_def)
  moreover from inv p have "0 \<le> frame (pgt S ! nat p) \<and> frame (pgt S ! nat p) < used S \<and>
          page (frt S ! nat (frame (pgt S ! nat p))) = p"
    by (simp add: sys_inv_def inv_map_def)
  ultimately show ?thesis by simp
qed

text \<open>A page fault on a legal page that is not present is resolved: always for FIFO, and
  for LRU when a free frame exists or some resident page has a timestamp below the
  maximum.\<close>

lemma handle_page_fault_resolves:
  assumes inv: "sys_inv v S" and z: "(word_of_int (pagsz S) :: u32) \<noteq> 0"
    and pg: "0 \<le> page_of S va" "page_of S va < numpags S"
    and np: "\<not> present (pgt S ! nat (page_of S va))"
    and ok: "v = LRU \<and> listfree S = - 1 \<longrightarrow>
       (\<exists>q. 0 \<le> q \<and> q < numpags S \<and> present (pgt S ! nat q) \<and>
            timestamp (pgt S ! nat q) \<noteq> NOT 0)"
  shows "\<exists>S'. handle_page_fault v S va = Inr S' \<and> sys_inv v S' \<and>
     present (pgt S' ! nat (page_of S va)) \<and>
     0 \<le> frame (pgt S' ! nat (page_of S va)) \<and>
     frame (pgt S' ! nat (page_of S va)) < numframes S' \<and>
     page (frt S' ! nat (frame (pgt S' ! nat (page_of S va)))) = page_of S va"
proof -
  have "\<exists>S'. handle_page_fault v S va = Inr S' \<and> sys_inv v S'"
  proof (cases "v = LRU \<and> listfree S = - 1")
    case False
    then have "v = FIFO \<or> listfree S \<noteq> - 1" by (cases v) auto
    then show ?thesis
    proof
      assume "v = FIFO"
      with hpf_inv [OF inv z pg np] show ?thesis by blast
    next
      assume "listfree S \<noteq> - 1"
      from hpf_free_inv [OF inv z this pg np] show ?thesis by blast
    qed
  next
    case True
    with ok obtain q where q: "0 \<le> q" "q < numpags S" "present (pgt S ! nat q)"
      "timestamp (pgt S ! nat q) \<noteq> NOT 0" by blast
    from inv have n: "numpags S \<le> int (length (pgt S))"
      by (simp add: sys_inv_def inv_sizes_def)
    from choose_lru_least [of "faulted S va" q] n q True obtain victim S3 where
      "choose_page_to_be_replaced v (faulted S va) = Inr (victim, S3)"
      "0 \<le> victim" "victim < numpags S" "present (pgt S ! nat victim)"
      by auto
    from hpf_evict_step [OF inv z _ pg np this] True show ?thesis by blast
  qed
  then obtain S' where h: "handle_page_fault v S va = Inr S'" "sys_inv v S'" by blast
  note f = handle_page_fault_Inr [OF h(1)]
  from present_in_frame [OF h(2), of "page_of S va"] f pg h show ?thesis by auto
qed

section \<open>The effect of an LRU translation on timestamps and flags\<close>










section \<open>Reaching the wrap of the clock\<close>

lemma sim_mmu_lru_read_present:
  assumes z: "(word_of_int (pagsz S) :: u32) \<noteq> 0"
    and pg: "0 \<le> page_of S va" "page_of S va < numpags S" "in_range (pgt S) (page_of S va)"
    and pr: "present (pgt S ! nat (page_of S va))" and nd: "\<not> detailed S"
    and nw: "clock S + 1 \<noteq> 0"
  shows "sim_mmu LRU S va (CHR ''R'') =
     Inr (word_of_int (frame (pgt S ! nat (page_of S va)) * pagsz S + offset_of S va),
          S\<lparr>numrefsread := numrefsread S + 1,
            pgt := (pgt S)[nat (page_of S va) :=
                     (pgt S ! nat (page_of S va))\<lparr>timestamp := clock S\<rparr>],
            clock := clock S + 1\<rparr>)"
  using assms
  by (simp add: sim_mmu_def Let_def reference_page_def reference_page_lru_def upd_defs)

lemma lru_repeat_read:
  assumes z: "(word_of_int (pagsz S) :: u32) \<noteq> 0"
    and pg: "0 \<le> page_of S va" "page_of S va < numpags S" "in_range (pgt S) (page_of S va)"
    and pr: "present (pgt S ! nat (page_of S va))" and nd: "\<not> detailed S"
    and nw: "unat (clock S) + n < 2 ^ 32"
  shows "run LRU S (replicate n (va, CHR ''R'')) =
     Inr (if n = 0 then S
          else S\<lparr>numrefsread := numrefsread S + of_nat n,
                 pgt := (pgt S)[nat (page_of S va) :=
                          (pgt S ! nat (page_of S va))\<lparr>timestamp := clock S + of_nat n - 1\<rparr>],
                 clock := clock S + of_nat n\<rparr>)"
  using assms
proof (induction n arbitrary: S)
  case 0
  then show ?case by simp
next
  case (Suc n)
  let ?pg = "page_of S va"
  let ?S1 = "S\<lparr>numrefsread := numrefsread S + 1,
            pgt := (pgt S)[nat ?pg := (pgt S ! nat ?pg)\<lparr>timestamp := clock S\<rparr>],
            clock := clock S + 1\<rparr>"
  have u: "unat (clock S + 1) = unat (clock S) + 1"
    using Suc.prems(7) by (simp add: unat_word_ariths)
  then have nz: "clock S + 1 \<noteq> 0" by (metis Suc_eq_plus1 nat.distinct(1) unat_0)
  have s: "sim_mmu LRU S va (CHR ''R'') =
     Inr (word_of_int (frame (pgt S ! nat ?pg) * pagsz S + offset_of S va), ?S1)"
    using sim_mmu_lru_read_present [OF Suc.prems(1-6) nz] .
  have p1: "page_of ?S1 va = ?pg" by (simp add: page_of_def)
  have r: "run LRU ?S1 (replicate n (va, CHR ''R'')) =
     Inr (if n = 0 then ?S1
          else ?S1\<lparr>numrefsread := numrefsread ?S1 + of_nat n,
                 pgt := (pgt ?S1)[nat (page_of ?S1 va) :=
                          (pgt ?S1 ! nat (page_of ?S1 va))\<lparr>timestamp := clock ?S1 + of_nat n - 1\<rparr>],
                 clock := clock ?S1 + of_nat n\<rparr>)"
  proof (rule Suc.IH)
    show "(word_of_int (pagsz ?S1) :: u32) \<noteq> 0" using Suc.prems(1) by simp
    show "0 \<le> page_of ?S1 va" "page_of ?S1 va < numpags ?S1"
      "in_range (pgt ?S1) (page_of ?S1 va)"
      unfolding p1 using Suc.prems(2-4) by (simp_all add: in_range_def)
    show "present (pgt ?S1 ! nat (page_of ?S1 va))"
      unfolding p1 using Suc.prems(2,4,5) by (simp add: in_range_def nth_upd_int)
    show "\<not> detailed ?S1" using Suc.prems(6) by simp
    show "unat (clock ?S1) + n < 2 ^ 32" using u Suc.prems(7) by simp
  qed
  have l: "nat ?pg < length (pgt S)" using Suc.prems(2,4) by (simp add: in_range_def)
  show ?case
    using s r l unfolding p1 by (cases "n = 0") (simp_all add: algebra_simps)
qed

lemma run_append:
  "run v S (xs @ ys) = (case run v S xs of Inl e \<Rightarrow> Inl e | Inr S' \<Rightarrow> run v S' ys)"
  by (induction xs arbitrary: S) (auto split: sum.splits)

lemma init_S_one: "init_tables S_one = Inr S_one"
  by (simp add: init_tables_def S_one_def init_loop.simps in_range_def zero_page_def
      eval_nat_numeral)

lemma sim_S_one: "sim_mmu LRU S_one 0 (CHR ''R'') = Inr (0, S_one1)"
  by (simp add: sim_defs S_one_def S_one1_def)

lemma run_S_one1: "run LRU S_one1 (replicate 4294967294 (0, CHR ''R'')) = Inr S_wrap"
proof -
  have p: "page_of S_one1 0 = 0" by (simp add: page_of_def S_one1_def)
  have "run LRU S_one1 (replicate 4294967294 (0, CHR ''R'')) =
     Inr (if (4294967294::nat) = 0 then S_one1
          else S_one1\<lparr>numrefsread := numrefsread S_one1 + of_nat 4294967294,
                 pgt := (pgt S_one1)[nat (page_of S_one1 0) :=
                          (pgt S_one1 ! nat (page_of S_one1 0))
                            \<lparr>timestamp := clock S_one1 + of_nat 4294967294 - 1\<rparr>],
                 clock := clock S_one1 + of_nat 4294967294\<rparr>)"
    by (rule lru_repeat_read) (simp_all add: p, simp_all add: S_one1_def in_range_def)
  then show ?thesis by (simp add: p, simp add: S_one1_def S_wrap_def)
qed

lemma run_to_stuck:
  "run LRU S_one ((0, CHR ''R'') # replicate 4294967294 (0, CHR ''R'') @ [(0, CHR ''W'')]) =
     Inr S_stuck"
  using sim_S_one run_S_one1 sim_wrap by (simp add: run_append)

lemma run_past_stuck:
  "run LRU S_one ((0, CHR ''R'') # replicate 4294967294 (0, CHR ''R'') @
      [(0, CHR ''W''), (100, CHR ''R'')]) = Inl OutOfBounds"
  using sim_S_one run_S_one1 sim_wrap sim_stuck by (simp add: run_append)

section \<open>Two translations of one address\<close>

text \<open>A translation that returns is followed by one of the same address that returns
  the same physical address and counts no fault.\<close>

lemma sim_mmu_again:
  assumes "sim_mmu v S va c = Inr (pa, S')"
  shows "\<exists>S''. sim_mmu v S' va c' = Inr (pa, S'') \<and> numpagefaults S'' = numpagefaults S'"
proof -
  from assms have z: "(word_of_int (pagsz S) :: u32) \<noteq> 0"
    by (auto simp: sim_mmu_def split: if_splits)
  let ?pg = "page_of S va"
  show ?thesis
  proof (cases "?pg < 0 \<or> numpags S \<le> ?pg")
    case True
    with assms z have "pa = NOT 0" "S' = S\<lparr>numillegalrefs := numillegalrefs S + 1\<rparr>"
      by (auto simp: sim_mmu_def Let_def)
    with True z show ?thesis
      by (auto simp: sim_mmu_def Let_def page_of_def)
  next
    case False
    with assms z have r0: "in_range (pgt S) ?pg"
      by (auto simp: sim_mmu_def Let_def split: if_splits)
    from assms z False r0 obtain S1 S2 where
      f: "(if \<not> present (pgt S ! nat ?pg) then handle_page_fault v S va else Inr S) = Inr S1"
      and r: "reference_page v S1 ?pg c = Inr S2"
      and pa: "pa = word_of_int (frame (pgt S1 ! nat ?pg) * pagsz S1 + offset_of S va)"
      and S': "S' = (if detailed S2 then emit (EvAccess c va ?pg (frame (pgt S1 ! nat ?pg)) (offset_of S va)) S2 else S2)"
      by (auto simp: sim_mmu_def Let_def split: if_splits sum.splits)
    have s1: "in_range (pgt S1) ?pg" "pagsz S1 = pagsz S" "numpags S1 = numpags S"
      "present (pgt S1 ! nat ?pg)"
      using f r0 handle_page_fault_Inr [of v S va S1]
      by (auto simp: in_range_def split: if_splits)
    from reference_page_ok [OF s1(1), of v c] r False
    have s2: "pagsz S2 = pagsz S1" "numpags S2 = numpags S1" "length (pgt S2) = length (pgt S1)"
      "present (pgt S2 ! nat ?pg) = present (pgt S1 ! nat ?pg)"
      "frame (pgt S2 ! nat ?pg) = frame (pgt S1 ! nat ?pg)"
      by auto
    have s': "pagsz S' = pagsz S" "numpags S' = numpags S" "in_range (pgt S') ?pg"
      "present (pgt S' ! nat ?pg)" "frame (pgt S' ! nat ?pg) = frame (pgt S1 ! nat ?pg)"
      using s1 s2 S' by (auto simp: emit_def in_range_def)
    from reference_page_ok [OF s'(3), of v c'] obtain S3 where
      r3: "reference_page v S' ?pg c' = Inr S3" "numpagefaults S3 = numpagefaults S'"
      "detailed S3 = detailed S'"
      by blast
    have pg': "page_of S' va = ?pg" "offset_of S' va = offset_of S va"
      using s'(1) by (simp_all add: page_of_def offset_of_def)
    show ?thesis
      using z False s' r3 pa s1(2) pg'
      by (auto simp: sim_mmu_def Let_def emit_def)
  qed
qed

text \<open>In a system of the reachable shape a legal address is translated, unless the
  variant is LRU, the page is absent, no frame is free and every resident page has the
  timestamp \<open>2 ^ 32 - 1\<close>.\<close>

lemma sim_mmu_returns:
  assumes inv: "sys_inv v S" and z: "(word_of_int (pagsz S) :: u32) \<noteq> 0"
    and pg: "0 \<le> page_of S va" "page_of S va < numpags S"
    and ok: "v = LRU \<and> \<not> present (pgt S ! nat (page_of S va)) \<and> listfree S = - 1 \<longrightarrow>
       (\<exists>q. 0 \<le> q \<and> q < numpags S \<and> present (pgt S ! nat q) \<and>
            timestamp (pgt S ! nat q) \<noteq> NOT 0)"
  shows "\<exists>pa S'. sim_mmu v S va c = Inr (pa, S') \<and> sys_inv v S' \<and>
     present (pgt S' ! nat (page_of S va)) \<and>
     numpagefaults S' =
       (if present (pgt S ! nat (page_of S va)) then numpagefaults S else numpagefaults S + 1)"
proof -
  let ?pg = "page_of S va"
  from inv have s: "numpags S \<le> int (length (pgt S))"
    by (simp add: sys_inv_def inv_sizes_def)
  with pg have r0: "in_range (pgt S) ?pg" by (simp add: in_range_def)
  have "\<exists>S1. (if \<not> present (pgt S ! nat ?pg) then handle_page_fault v S va else Inr S) = Inr S1
      \<and> sys_inv v S1 \<and> present (pgt S1 ! nat ?pg) \<and>
      numpagefaults S1 =
       (if present (pgt S ! nat ?pg) then numpagefaults S else numpagefaults S + 1)"
  proof (cases "present (pgt S ! nat ?pg)")
    case True
    with inv show ?thesis by simp
  next
    case np: False
    with ok have "v = LRU \<and> listfree S = - 1 \<longrightarrow>
       (\<exists>q. 0 \<le> q \<and> q < numpags S \<and> present (pgt S ! nat q) \<and>
            timestamp (pgt S ! nat q) \<noteq> NOT 0)" by blast
    from handle_page_fault_resolves [OF inv z pg np this] obtain S1 where
      h: "handle_page_fault v S va = Inr S1" "sys_inv v S1" "present (pgt S1 ! nat ?pg)"
      by blast
    from handle_page_fault_Inr [OF h(1)] have "numpagefaults S1 = numpagefaults S + 1" by simp
    with h np show ?thesis by simp
  qed
  then obtain S1 where
    f: "(if \<not> present (pgt S ! nat ?pg) then handle_page_fault v S va else Inr S) = Inr S1"
    and i1: "sys_inv v S1" and p1: "present (pgt S1 ! nat ?pg)"
    and n1: "numpagefaults S1 =
       (if present (pgt S ! nat ?pg) then numpagefaults S else numpagefaults S + 1)" by blast
  have s1: "in_range (pgt S1) ?pg" "pagsz S1 = pagsz S" "numframes S1 = numframes S"
    using f r0 handle_page_fault_Inr [of v S va S1]
    by (auto simp: in_range_def split: if_splits)
  from reference_page_ok [OF s1(1), of v c] obtain S2 where
    r: "reference_page v S1 ?pg c = Inr S2" "pagsz S2 = pagsz S1" "numpags S2 = numpags S1"
     "length (pgt S2) = length (pgt S1)" "numframes S2 = numframes S1" "frt S2 = frt S1"
     "listfree S2 = listfree S1" "listoccupied S2 = listoccupied S1"
     "\<forall>j. present (pgt S2 ! j) = present (pgt S1 ! j) \<and> frame (pgt S2 ! j) = frame (pgt S1 ! j)"
     "numpagefaults S2 = numpagefaults S1"
    by blast
  have i2: "sys_inv v S2" using sys_inv_cong [of S2 S1 v] r i1 by simp
  let ?S' = "if detailed S2 then emit (EvAccess c va ?pg (frame (pgt S1 ! nat ?pg)) (offset_of S va)) S2 else S2"
  have "sys_inv v ?S' = sys_inv v S2" by (rule sys_inv_cong) simp_all
  with i2 have i3: "sys_inv v ?S'" by simp
  have e: "sim_mmu v S va c =
      Inr (word_of_int (frame (pgt S1 ! nat ?pg) * pagsz S1 + offset_of S va), ?S')"
    using z pg r0 f s1 r(1) by (simp add: sim_mmu_def Let_def)
  have p': "present (pgt ?S' ! nat ?pg)" using r(9) p1 by simp
  have n': "numpagefaults ?S' = numpagefaults S1" using r(10) by simp
  from e i3 p' n' n1 show ?thesis by simp
qed

section \<open>The counters on the way to the wrap of the clock\<close>

text \<open>After \<open>n\<close> of the reads of page 0 that lead from \<open>S_one1\<close> to \<open>S_wrap\<close> the read
  counter, as a signed value, is \<open>n - (2 ^ 31 - 1)\<close>: it climbs from the least to the
  largest \<^verbatim>\<open>int\<close> without wrapping, and the other counters stay as they are.\<close>

lemma sint_reads:
  assumes "n \<le> 4294967294"
  shows "sint (- 2147483647 + of_nat n :: i32) = int n - 2147483647"
proof -
  have "(- 2147483647 + of_nat n :: i32) = word_of_int (int n - 2147483647)" by simp
  then have "sint (- 2147483647 + of_nat n :: i32) = signed_take_bit 31 (int n - 2147483647)"
    by (simp only: sint_sbintrunc') simp
  also have "\<dots> = int n - 2147483647"
    using assms by (simp add: signed_take_bit_int_eq_self)
  finally show ?thesis .
qed

lemma reads_within_int:
  assumes "n \<le> 4294967294"
  shows "\<exists>S. run LRU S_one1 (replicate n (0, CHR ''R'')) = Inr S \<and>
     sint (numrefsread S) = int n - 2147483647 \<and> numrefswrite S = 0 \<and>
     numpagefaults S = 1 \<and> numpgwriteback S = 0 \<and> numillegalrefs S = 0"
proof -
  have p: "page_of S_one1 0 = 0" by (simp add: page_of_def S_one1_def)
  have c: "unat (clock S_one1) + n < 2 ^ 32" using assms by (simp add: S_one1_def)
  have r: "run LRU S_one1 (replicate n (0, CHR ''R'')) =
     Inr (if n = 0 then S_one1
          else S_one1\<lparr>numrefsread := numrefsread S_one1 + of_nat n,
                 pgt := (pgt S_one1)[nat (page_of S_one1 0) :=
                          (pgt S_one1 ! nat (page_of S_one1 0))
                            \<lparr>timestamp := clock S_one1 + of_nat n - 1\<rparr>],
                 clock := clock S_one1 + of_nat n\<rparr>)"
    by (rule lru_repeat_read [OF _ _ _ _ _ _ c]) (simp_all add: p, simp_all add: S_one1_def in_range_def)
  have v: "numrefsread S_one1 = - 2147483647" "numrefswrite S_one1 = 0"
    "numpagefaults S_one1 = 1" "numpgwriteback S_one1 = 0" "numillegalrefs S_one1 = 0"
    by (simp_all add: S_one1_def)
  show ?thesis
  proof (cases "n = 0")
    case True
    with r v show ?thesis by simp
  next
    case False
    with r v sint_reads [OF assms] show ?thesis by simp
  qed
qed

section \<open>The eviction contract\<close>




section \<open>A page fault that finds no victim\<close>

text \<open>
  Claim C2. The claim is that \<open>handle_page_fault\<close> always returns with the requested page
  present, the eviction branch never failing to find a candidate. For FIFO, and for LRU
  as long as some resident page has a timestamp below \<open>2 ^ 32 - 1\<close>, this is
  \<open>handle_page_fault_resolves\<close> above. For LRU it fails in the system \<open>S_stuck\<close>.
  That system is reached from the initialised one-frame system \<open>S_one\<close> by \<open>2 ^ 32 - 1\<close>
  reads and one write of page 0, the write being the reference that wraps the clock; no
  counter leaves the range of \<^verbatim>\<open>int\<close> on the way (\<open>reads_within_int\<close> above). In \<open>S_stuck\<close> the frame is occupied,
  page 1 is legal and not present, and the fault on address 100 (page 1) finds no victim:
  the scan returns -1 and \<open>replace_page\<close> indexes the page table at -1.
\<close>

theorem lru_fault_without_victim:
  "init_tables S_one = Inr S_one \<and> numframes S_one = 1 \<and>
   run LRU S_one ((0, CHR ''R'') # replicate 4294967294 (0, CHR ''R'') @ [(0, CHR ''W'')]) =
     Inr S_stuck \<and>
   numpags S_stuck = 2 \<and> listfree S_stuck = - 1 \<and>
   page_of S_stuck 100 = 1 \<and> \<not> present (pgt S_stuck ! 1) \<and>
   handle_page_fault LRU S_stuck 100 = Inl OutOfBounds \<and>
   sim_mmu LRU S_stuck 100 (CHR ''R'') = Inl OutOfBounds \<and>
   run LRU S_one ((0, CHR ''R'') # replicate 4294967294 (0, CHR ''R'') @
      [(0, CHR ''W''), (100, CHR ''R'')]) = Inl OutOfBounds"
proof -
  have a: "numframes S_one = 1" "numpags S_stuck = 2" "listfree S_stuck = - 1"
    "page_of S_stuck 100 = 1" "\<not> present (pgt S_stuck ! 1)"
    by (simp_all add: S_one_def S_stuck_def page_of_def zero_page_def)
  from init_S_one run_to_stuck run_past_stuck hpf_stuck sim_stuck a show ?thesis by simp
qed

section \<open>The LRU choice when every resident timestamp is the largest\<close>

text \<open>
  Claim C3. The claim is that the LRU \<open>choose_page_to_be_replaced\<close> returns the present
  page with the least timestamp, the first one in index order. That is \<open>choose_lru_least\<close>
  above when some present page has a timestamp below \<open>2 ^ 32 - 1\<close>. In \<open>S_stuck\<close> page 0 is
  the only present page, so it has the least timestamp, but that timestamp is
  \<open>2 ^ 32 - 1\<close>, the value the scan starts its minimum from, and the function returns -1.
\<close>

theorem lru_choice_misses_largest_timestamp:
  "numpags S_stuck = 2 \<and> listfree S_stuck = - 1 \<and>
   present (pgt S_stuck ! 0) \<and> \<not> present (pgt S_stuck ! 1) \<and>
   timestamp (pgt S_stuck ! 0) = NOT 0 \<and>
   choose_page_to_be_replaced LRU S_stuck = Inr (- 1, S_stuck)"
proof -
  have a: "numpags S_stuck = 2" "listfree S_stuck = - 1"
    "present (pgt S_stuck ! 0)" "\<not> present (pgt S_stuck ! 1)"
    "timestamp (pgt S_stuck ! 0) = NOT 0"
    by (simp_all add: S_stuck_def zero_page_def)
  from choose_stuck a show ?thesis by simp
qed

section \<open>The FIFO scenario\<close>

text \<open>
  Claim C4. FIFO with two frames, at least three pages, any non-zero page size and any
  three virtual addresses in pages 0, 1 and 2: after \<open>init_tables\<close> the three translations,
  in that order, all return; the page-fault counter has grown by 3 (it is 3 when it was 0
  before); of the legal pages exactly pages 1 and 2 are present, so page 0, the first one
  loaded, has been evicted; no frame is free, frame 0 holds page 2 and frame 1 holds
  page 1. The operations may be reads or anything else.
  The counters are 32-bit values: one more is the next integer below the largest
  \<^verbatim>\<open>int\<close> (\<open>sint_incr\<close>) and the least \<^verbatim>\<open>int\<close> after it (\<open>sint_wrap\<close>), as the compiled
  program counts.
\<close>

theorem fifo_scenario:
  assumes nf: "numframes S0 = 2" "2 \<le> int (length (frt S0))"
    and np: "3 \<le> numpags S0" "numpags S0 \<le> int (length (pgt S0))"
    and z: "(word_of_int (pagsz S0) :: u32) \<noteq> 0"
    and p: "page_of S0 va0 = 0" "page_of S0 va1 = 1" "page_of S0 va2 = 2"
  shows "\<exists>S1 S. init_tables S0 = Inr S1 \<and>
     run FIFO S1 [(va0, c0), (va1, c1), (va2, c2)] = Inr S \<and>
     numpagefaults S = numpagefaults S0 + 3 \<and>
     (\<forall>q. 0 \<le> q \<and> q < numpags S0 \<longrightarrow> present (pgt S ! nat q) = (q = 1 \<or> q = 2)) \<and>
     numframes S = 2 \<and> listfree S = - 1 \<and>
     page (frt S ! nat 0) = 2 \<and> page (frt S ! nat 1) = 1"
proof -
  from init_inv_clean [of S0 FIFO] nf np obtain S1 where
    i: "init_tables S0 = Inr S1" "sys_inv FIFO S1" "used S1 = 0" "pagsz S1 = pagsz S0"
      "numframes S1 = 2" "numpags S1 = numpags S0" "numpagefaults S1 = numpagefaults S0"
      "\<forall>q. 0 \<le> q \<and> q < numpags S0 \<longrightarrow> \<not> present (pgt S1 ! nat q)"
    by auto
  have z1: "(word_of_int (pagsz S1) :: u32) \<noteq> 0" using z i(4) by simp
  have p1: "page_of S1 va0 = 0" using p(1) page_of_pagsz [OF i(4)] by simp
  have l1: "listfree S1 \<noteq> - 1" using i(3,5) by (intro used_not_full) simp
  have "\<not> present (pgt S1 ! nat (page_of S1 va0))"
    using i(8) [rule_format, of 0] np p1 by simp
  from sim_mmu_free [OF i(2) z1 l1 _ _ this, of c0] p1 np i(6) obtain pa1 S2 where
    a: "sim_mmu FIFO S1 va0 c0 = Inr (pa1, S2)" "sys_inv FIFO S2" "pagsz S2 = pagsz S1"
     "numpags S2 = numpags S1" "numframes S2 = numframes S1" "used S2 = used S1 + 1"
     "numpagefaults S2 = numpagefaults S1 + 1"
     "\<forall>q. 0 \<le> q \<and> q < numpags S1 \<longrightarrow>
            present (pgt S2 ! nat q) = (q = 0 \<or> present (pgt S1 ! nat q))"
     "\<forall>i. 0 \<le> i \<and> i < numframes S1 \<longrightarrow>
        page (frt S2 ! nat i) = (if i = used S1 then 0 else page (frt S1 ! nat i))"
    by auto
  have pr2: "present (pgt S2 ! nat q) = (q = 0)" if "0 \<le> q" "q < numpags S0" for q
    using a(8) [rule_format, of q] i(6) i(8) [rule_format, of q] that by simp
  have f2: "page (frt S2 ! nat 0) = 0" using a(9) [rule_format, of 0] i(3,5) by simp
  have z2: "(word_of_int (pagsz S2) :: u32) \<noteq> 0" using z1 a(3) by simp
  have p2: "page_of S2 va1 = 1" using p(2) page_of_pagsz [of S2 S0] a(3) i(4) by simp
  have l2: "listfree S2 \<noteq> - 1" using a(5,6) i(3,5) by (intro used_not_full) simp
  have "\<not> present (pgt S2 ! nat (page_of S2 va1))" using pr2 [of 1] np p2 by simp
  from sim_mmu_free [OF a(2) z2 l2 _ _ this, of c1] p2 np a(4) i(6) obtain pa2 S3 where
    b: "sim_mmu FIFO S2 va1 c1 = Inr (pa2, S3)" "sys_inv FIFO S3" "pagsz S3 = pagsz S2"
     "numpags S3 = numpags S2" "numframes S3 = numframes S2" "used S3 = used S2 + 1"
     "numpagefaults S3 = numpagefaults S2 + 1"
     "\<forall>q. 0 \<le> q \<and> q < numpags S2 \<longrightarrow>
            present (pgt S3 ! nat q) = (q = 1 \<or> present (pgt S2 ! nat q))"
     "\<forall>i. 0 \<le> i \<and> i < numframes S2 \<longrightarrow>
        page (frt S3 ! nat i) = (if i = used S2 then 1 else page (frt S2 ! nat i))"
     "listoccupied S3 = used S2"
    by auto
  have u3: "used S3 = 2" "numframes S3 = 2" "numpags S3 = numpags S0"
    using a(4,5,6) b(4,5,6) i(3,5,6) by simp_all
  have pr3: "present (pgt S3 ! nat q) = (q = 1 \<or> q = 0)" if "0 \<le> q" "q < numpags S0" for q
    using b(8) [rule_format, of q] a(4) i(6) pr2 [of q] that by simp
  have f3: "page (frt S3 ! nat 0) = 0" "page (frt S3 ! nat 1) = 1"
    using b(9) [rule_format, of 0] b(9) [rule_format, of 1] a(5,6) i(3,5) f2 by simp_all
  have lo3: "listoccupied S3 = 1" using b(10) a(6) i(3) by simp
  have l3: "listfree S3 = - 1" using used_full [OF b(2)] u3 by simp
  have n3: "nextf (frt S3 ! nat 1) = 0"
    using b(2) u3 by (simp add: sys_inv_def inv_occ_def)
  have z3: "(word_of_int (pagsz S3) :: u32) \<noteq> 0" using z2 b(3) by simp
  have p3: "page_of S3 va2 = 2" using p(3) page_of_pagsz [of S3 S0] a(3) b(3) i(4) by simp
  have "\<not> present (pgt S3 ! nat (page_of S3 va2))" using pr3 [of 2] np p3 by simp
  from sim_mmu_evict_fifo [OF b(2) z3 l3 _ _ this, of c2] p3 np u3 obtain pa3 S4 where
    c: "sim_mmu FIFO S3 va2 c2 = Inr (pa3, S4)" "numframes S4 = numframes S3"
     "used S4 = used S3" "sys_inv FIFO S4"
     "numpagefaults S4 = numpagefaults S3 + 1"
     "\<forall>q. 0 \<le> q \<and> q < numpags S3 \<longrightarrow>
        present (pgt S4 ! nat q) =
          (q = 2 \<or>
           (present (pgt S3 ! nat q) \<and>
            q \<noteq> page (frt S3 ! nat (nextf (frt S3 ! nat (listoccupied S3))))))"
     "\<forall>i. 0 \<le> i \<and> i < numframes S3 \<longrightarrow>
        page (frt S4 ! nat i) =
          (if i = nextf (frt S3 ! nat (listoccupied S3)) then 2
           else page (frt S3 ! nat i))"
    by auto
  have vf: "nextf (frt S3 ! nat (listoccupied S3)) = 0" using lo3 n3 by simp
  have pr4: "present (pgt S4 ! nat q) = (q = 1 \<or> q = 2)" if "0 \<le> q" "q < numpags S0" for q
    using c(6) [rule_format, of q] u3 pr3 [of q] that vf f3 by auto
  have f4: "page (frt S4 ! nat 0) = 2" "page (frt S4 ! nat 1) = 1"
    using c(7) [rule_format, of 0] c(7) [rule_format, of 1] u3 vf f3 by simp_all
  have l4: "listfree S4 = - 1" using used_full [OF c(4)] c(2,3) u3 by simp
  have r: "run FIFO S1 [(va0, c0), (va1, c1), (va2, c2)] = Inr S4"
    using a(1) b(1) c(1) by simp
  have n: "numpagefaults S4 = numpagefaults S0 + 3" using c(5) b(7) a(7) i(7) by simp
  from i(1) r n pr4 f4 l4 c(2) u3 show ?thesis by auto
qed

text \<open>The scenario with four pages of 100 bytes and reads of addresses 0, 100 and 200;
  after the first two reads the page chosen for replacement is page 0.\<close>

theorem fifo_scenario_witness:
  "numframes S_raw = 2 \<and> 2 \<le> int (length (frt S_raw)) \<and> 3 \<le> numpags S_raw \<and>
   numpags S_raw \<le> int (length (pgt S_raw)) \<and> (word_of_int (pagsz S_raw) :: u32) \<noteq> 0 \<and>
   page_of S_raw 0 = 0 \<and> page_of S_raw 100 = 1 \<and> page_of S_raw 200 = 2 \<and>
   init_tables S_raw = Inr S_init \<and> numframes S_init = 2 \<and> numpagefaults S_init = 0 \<and>
   page_of S_init 0 = 0 \<and> page_of S_init 100 = 1 \<and> page_of S_init 200 = 2 \<and>
   run FIFO S_init [(0, CHR ''R''), (100, CHR ''R'')] = Inr S_fifo2 \<and>
   choose_page_to_be_replaced FIFO S_fifo2 = Inr (0, S_fifo2) \<and>
   run FIFO S_init [(0, CHR ''R''), (100, CHR ''R''), (200, CHR ''R'')] = Inr S_fifo3 \<and>
   numpagefaults S_fifo3 = 3 \<and> \<not> present (pgt S_fifo3 ! 0) \<and>
   present (pgt S_fifo3 ! 1) \<and> present (pgt S_fifo3 ! 2) \<and> \<not> present (pgt S_fifo3 ! 3) \<and>
   map page (frt S_fifo3) = [2, 1] \<and> occupied_frames FIFO S_fifo3 = [1, 0] \<and>
   free_frames S_fifo3 = []"
proof -
  have h: "numframes S_raw = 2" "2 \<le> int (length (frt S_raw))" "3 \<le> numpags S_raw"
    "numpags S_raw \<le> int (length (pgt S_raw))" "(word_of_int (pagsz S_raw) :: u32) \<noteq> 0"
    "page_of S_raw 0 = 0" "page_of S_raw 100 = 1" "page_of S_raw 200 = 2"
    by (simp_all add: S_raw_def page_of_def)
  have a: "numframes S_init = 2" "numpagefaults S_init = 0"
    "page_of S_init 0 = 0" "page_of S_init 100 = 1" "page_of S_init 200 = 2"
    by (simp_all add: S_init_def page_of_def)
  have b: "numpagefaults S_fifo3 = 3" "\<not> present (pgt S_fifo3 ! 0)"
    "present (pgt S_fifo3 ! 1)" "present (pgt S_fifo3 ! 2)" "\<not> present (pgt S_fifo3 ! 3)"
    "map page (frt S_fifo3) = [2, 1]" "occupied_frames FIFO S_fifo3 = [1, 0]"
    "free_frames S_fifo3 = []"
    by (simp_all add: S_fifo3_def zero_page_def occupied_frames_def free_frames_def
        circular_list_def eval_nat_numeral)
  from fifo_scenario [OF h, of "CHR ''R''" "CHR ''R''" "CHR ''R''"]
    h init_tables_S_raw run_fifo2 run_fifo3 choose_fifo2 a b
  show ?thesis by simp
qed

section \<open>Write-back accounting\<close>



section \<open>Illegal references\<close>

text \<open>
  Claim C6. When the page index \<open>virtual_addr / pagsz\<close> is negative or at least
  \<open>numpags\<close> (and the division is defined, the page size being non-zero), \<open>sim_mmu\<close>
  returns the address with all bits set, \<^verbatim>\<open>~0U\<close>, and the resulting system is the one it
  was given with \<open>numillegalrefs\<close> incremented by one: the page table, the frame table, the
  list pointers, the clock, the other counters and the output are the same. This holds in
  both variants.
  The counters are 32-bit values: one more is the next integer below the largest
  \<^verbatim>\<open>int\<close> (\<open>sint_incr\<close>) and the least \<^verbatim>\<open>int\<close> after it (\<open>sint_wrap\<close>), as the compiled
  program counts.
\<close>

theorem sim_mmu_illegal_reference:
  assumes "(word_of_int (pagsz S) :: u32) \<noteq> 0"
    and "page_of S va < 0 \<or> numpags S \<le> page_of S va"
  shows "sim_mmu v S va c = Inr (NOT 0, S\<lparr>numillegalrefs := numillegalrefs S + 1\<rparr>)
         \<and> unat (NOT 0 :: u32) = 2 ^ 32 - 1"
  using assms by (auto simp: sim_mmu_def Let_def all_ones_u32)

text \<open>The example of the specification: four pages of 100 bytes, virtual address 500.\<close>

theorem sim_mmu_illegal_reference_witness:
  "(word_of_int (pagsz S_init) :: u32) \<noteq> 0 \<and> page_of S_init 500 = 5 \<and> numpags S_init = 4 \<and>
   sim_mmu FIFO S_init 500 (CHR ''R'') = Inr (4294967295, S_init\<lparr>numillegalrefs := 1\<rparr>) \<and>
   sim_mmu LRU S_init 500 (CHR ''W'') = Inr (4294967295, S_init\<lparr>numillegalrefs := 1\<rparr>)"
  using sim_mmu_illegal_reference [of S_init 500 FIFO "CHR ''R''"]
    sim_mmu_illegal_reference [of S_init 500 LRU "CHR ''W''"]
  by (simp add: S_init_def page_of_def)

section \<open>Free and occupied frames partition the frame table\<close>

text \<open>
  Claim C7. Take a system with a positive frame count and tables at least as long as
  the configured sizes, initialise it with \<open>init_tables\<close>, and run any trace of
  translations that returns. In the state reached, the free list and the occupied frames
  (for FIFO the list of occupied frames, for LRU the frames that hold a page) have no
  repeated member and no common member, together they are exactly the frames
  \<open>0, ..., numframes - 1\<close>, and their lengths add up to \<open>numframes\<close>.
\<close>

theorem frames_partition:
  assumes "0 \<le> numpags S0" "numpags S0 \<le> int (length (pgt S0))"
    and "0 < numframes S0" "numframes S0 \<le> int (length (frt S0))"
    and i: "init_tables S0 = Inr S1" and r: "run v S1 xs = Inr S"
  shows "distinct (free_frames S) \<and> distinct (occupied_frames v S) \<and>
     set (free_frames S) \<inter> set (occupied_frames v S) = {} \<and>
     set (free_frames S) \<union> set (occupied_frames v S) = {0..<numframes S0} \<and>
     int (length (free_frames S)) + int (length (occupied_frames v S)) = numframes S0"
proof -
  from init_inv [OF assms(1-4), of v] i have 1: "sys_inv v S1" "numframes S1 = numframes S0"
    by auto
  from run_Inr_inv [OF 1(1) r] 1(2) have inv: "sys_inv v S" and n: "numframes S = numframes S0"
    by simp_all
  from inv have s: "0 \<le> used S" "used S \<le> numframes S"
    by (simp_all add: sys_inv_def inv_sizes_def)
  note f = free_frames_inv [OF inv]
  note o = occupied_frames_inv [OF inv]
  show ?thesis using f o s n by auto
qed

text \<open>After one read in the two-frame FIFO system, frame 1 is free and frame 0 is
  occupied.\<close>

theorem frames_partition_witness:
  "0 \<le> numpags S_raw \<and> numpags S_raw \<le> int (length (pgt S_raw)) \<and>
   0 < numframes S_raw \<and> numframes S_raw \<le> int (length (frt S_raw)) \<and>
   init_tables S_raw = Inr S_init \<and> run FIFO S_init [(0, CHR ''R'')] = Inr S_fifo1 \<and>
   free_frames S_fifo1 = [1] \<and> occupied_frames FIFO S_fifo1 = [0] \<and>
   set (free_frames S_fifo1) \<union> set (occupied_frames FIFO S_fifo1) = {0..<numframes S_raw} \<and>
   int (length (free_frames S_fifo1)) + int (length (occupied_frames FIFO S_fifo1)) =
     numframes S_raw"
proof -
  have h: "0 \<le> numpags S_raw" "numpags S_raw \<le> int (length (pgt S_raw))"
    "0 < numframes S_raw" "numframes S_raw \<le> int (length (frt S_raw))"
    by (simp_all add: S_raw_def)
  from frames_partition [OF h init_tables_S_raw run_fifo1] h init_tables_S_raw run_fifo1 free_fifo1
  show ?thesis by simp
qed

section \<open>Translating the same address twice\<close>

text \<open>
  Claim C8. The claim is that for every legal virtual address two consecutive translations
  return the same physical address, the second without a page fault. Take a system with a
  positive frame count and tables as long as the configured sizes, initialise it and run
  any trace that returns; in the state reached take a legal address of a non-zero page
  size. For FIFO, and for LRU unless the page is absent, no frame is free and every
  resident page has the timestamp \<open>2 ^ 32 - 1\<close>, the first translation returns, the
  second (with any operation) returns the same physical address, and the page-fault
  counter after the second is the one after the first. In the excepted case the claim
  fails: in \<open>S_stuck\<close>, reached from the initialised system \<open>S_one\<close>, address 100 is
  legal (page 1 of 2) and its first translation, for reading or for writing, indexes the
  page table at -1 and returns no address.
\<close>

theorem sim_mmu_twice:
  "(0 \<le> numpags S0 \<and> numpags S0 \<le> int (length (pgt S0)) \<and>
    0 < numframes S0 \<and> numframes S0 \<le> int (length (frt S0)) \<and>
    init_tables S0 = Inr S1 \<and> run v S1 xs = Inr S \<and>
    (word_of_int (pagsz S) :: u32) \<noteq> 0 \<and> 0 \<le> page_of S va \<and> page_of S va < numpags S \<and>
    (v = LRU \<and> \<not> present (pgt S ! nat (page_of S va)) \<and> listfree S = - 1 \<longrightarrow>
       (\<exists>q. 0 \<le> q \<and> q < numpags S \<and> present (pgt S ! nat q) \<and>
            timestamp (pgt S ! nat q) \<noteq> NOT 0)) \<longrightarrow>
    (\<exists>pa S' S''. sim_mmu v S va c = Inr (pa, S') \<and> sim_mmu v S' va c' = Inr (pa, S'') \<and>
       numpagefaults S'' = numpagefaults S')) \<and>
   init_tables S_one = Inr S_one \<and>
   run LRU S_one ((0, CHR ''R'') # replicate 4294967294 (0, CHR ''R'') @ [(0, CHR ''W'')]) =
     Inr S_stuck \<and>
   page_of S_stuck 100 = 1 \<and> numpags S_stuck = 2 \<and>
   sim_mmu LRU S_stuck 100 (CHR ''R'') = Inl OutOfBounds \<and>
   sim_mmu LRU S_stuck 100 (CHR ''W'') = Inl OutOfBounds"
proof (intro conjI impI)
  assume a: "0 \<le> numpags S0 \<and> numpags S0 \<le> int (length (pgt S0)) \<and>
    0 < numframes S0 \<and> numframes S0 \<le> int (length (frt S0)) \<and>
    init_tables S0 = Inr S1 \<and> run v S1 xs = Inr S \<and>
    (word_of_int (pagsz S) :: u32) \<noteq> 0 \<and> 0 \<le> page_of S va \<and> page_of S va < numpags S \<and>
    (v = LRU \<and> \<not> present (pgt S ! nat (page_of S va)) \<and> listfree S = - 1 \<longrightarrow>
       (\<exists>q. 0 \<le> q \<and> q < numpags S \<and> present (pgt S ! nat q) \<and>
            timestamp (pgt S ! nat q) \<noteq> NOT 0))"
  then have h: "0 \<le> numpags S0" "numpags S0 \<le> int (length (pgt S0))"
    "0 < numframes S0" "numframes S0 \<le> int (length (frt S0))"
    and i: "init_tables S0 = Inr S1" and r: "run v S1 xs = Inr S"
    and z: "(word_of_int (pagsz S) :: u32) \<noteq> 0"
    and pg: "0 \<le> page_of S va" "page_of S va < numpags S"
    and ok: "v = LRU \<and> \<not> present (pgt S ! nat (page_of S va)) \<and> listfree S = - 1 \<longrightarrow>
       (\<exists>q. 0 \<le> q \<and> q < numpags S \<and> present (pgt S ! nat q) \<and>
            timestamp (pgt S ! nat q) \<noteq> NOT 0)"
    by blast+
  from init_inv [OF h, of v] i have "sys_inv v S1" by auto
  from run_Inr_inv [OF this r] have inv: "sys_inv v S" by simp
  from sim_mmu_returns [OF inv z pg ok, of c] obtain pa S' where
    s: "sim_mmu v S va c = Inr (pa, S')" by blast
  from sim_mmu_again [OF s, of c'] s
  show "\<exists>pa S' S''. sim_mmu v S va c = Inr (pa, S') \<and> sim_mmu v S' va c' = Inr (pa, S'') \<and>
       numpagefaults S'' = numpagefaults S'" by blast
next
  show "init_tables S_one = Inr S_one" by (rule init_S_one)
  show "run LRU S_one ((0, CHR ''R'') # replicate 4294967294 (0, CHR ''R'') @ [(0, CHR ''W'')]) =
     Inr S_stuck" by (rule run_to_stuck)
  show "page_of S_stuck 100 = 1" by (simp add: page_of_def S_stuck_def)
  show "numpags S_stuck = 2" by (simp add: S_stuck_def)
  show "sim_mmu LRU S_stuck 100 (CHR ''R'') = Inl OutOfBounds" by (rule sim_stuck)
  show "sim_mmu LRU S_stuck 100 (CHR ''W'') = Inl OutOfBounds" by (rule sim_stuck_write)
qed

text \<open>The LRU system \<open>S_lru_full\<close>, reached by R0, W1, W0 with both frames taken: address
  200 (page 2) is read with a fault that evicts page 1, then written with no fault, at
  the physical address 100 both times.\<close>

theorem sim_mmu_twice_witness:
  "0 \<le> numpags S_raw \<and> numpags S_raw \<le> int (length (pgt S_raw)) \<and>
   0 < numframes S_raw \<and> numframes S_raw \<le> int (length (frt S_raw)) \<and>
   init_tables S_raw = Inr S_init \<and>
   run LRU S_init [(0, CHR ''R''), (100, CHR ''W''), (0, CHR ''W'')] = Inr S_lru_full \<and>
   (word_of_int (pagsz S_lru_full) :: u32) \<noteq> 0 \<and>
   page_of S_lru_full 200 = 2 \<and> numpags S_lru_full = 4 \<and>
   \<not> present (pgt S_lru_full ! nat 2) \<and> listfree S_lru_full = - 1 \<and>
   present (pgt S_lru_full ! nat 0) \<and> timestamp (pgt S_lru_full ! nat 0) = 2 \<and>
   sim_mmu LRU S_lru_full 200 (CHR ''R'') = Inr (100, S_lru_final) \<and>
   sim_mmu LRU S_lru_final 200 (CHR ''W'') = Inr (100, S_lru_again) \<and>
   numpagefaults S_lru_again = numpagefaults S_lru_final"
proof -
  have h: "0 \<le> numpags S_raw" "numpags S_raw \<le> int (length (pgt S_raw))"
    "0 < numframes S_raw" "numframes S_raw \<le> int (length (frt S_raw))"
    by (simp_all add: S_raw_def)
  have p: "page_of S_lru_full 200 = 2" by (simp add: page_of_def S_lru_full_def)
  have g: "(word_of_int (pagsz S_lru_full) :: u32) \<noteq> 0" "numpags S_lru_full = 4"
    "\<not> present (pgt S_lru_full ! nat 2)" "listfree S_lru_full = - 1"
    "present (pgt S_lru_full ! nat 0)" "timestamp (pgt S_lru_full ! nat 0) = 2"
    by (simp_all add: S_lru_full_def zero_page_def)
  have q: "\<exists>q. 0 \<le> q \<and> q < numpags S_lru_full \<and> present (pgt S_lru_full ! nat q) \<and>
            timestamp (pgt S_lru_full ! nat q) \<noteq> NOT 0"
    using g by (intro exI [of _ 0]) simp
  have n: "numpagefaults S_lru_again = numpagefaults S_lru_final"
    by (simp add: S_lru_again_def S_lru_final_def)
  from sim_mmu_twice
    [of S_raw S_init LRU "[(0, CHR ''R''), (100, CHR ''W''), (0, CHR ''W'')]" S_lru_full 200
       "CHR ''R''" "CHR ''W''"]
    h init_tables_S_raw run_lru_full p g q sim_lru_full sim_lru_again n
  show ?thesis by simp
qed

section \<open>The LRU clock\<close>

text \<open>
  Claim C9. In the LRU variant, \<open>reference_page\<close> on a page of the table returns a system
  (it never fails) in which the page's timestamp is the clock value on entry and the clock
  is that value plus one modulo \<open>2 ^ 32\<close>. The event \<open>EvClockOverflow\<close>, the warning on
  \<^verbatim>\<open>stderr\<close>, is appended to the output exactly when the new clock is zero. The counters do
  not depend on the overflow: the read counter (for \<^verbatim>\<open>'R'\<close>) or the write counter (for
  anything else) is incremented by one, the other counters are unchanged.
  The counters are 32-bit values: one more is the next integer below the largest
  \<^verbatim>\<open>int\<close> (\<open>sint_incr\<close>) and the least \<^verbatim>\<open>int\<close> after it (\<open>sint_wrap\<close>), as the compiled
  program counts.
\<close>

theorem reference_page_lru_clock:
  assumes "in_range (pgt S) pg"
  shows "\<exists>S'. reference_page LRU S pg c = Inr S'
      \<and> timestamp (pgt S' ! nat pg) = clock S
      \<and> clock S' = clock S + 1
      \<and> unat (clock S') = (unat (clock S) + 1) mod 2 ^ 32
      \<and> out S' = (if clock S + 1 = 0 then out S @ [EvClockOverflow] else out S)
      \<and> numrefsread S' = (if c = CHR ''R'' then numrefsread S + 1 else numrefsread S)
      \<and> numrefswrite S' = (if c = CHR ''R'' then numrefswrite S else numrefswrite S + 1)
      \<and> numpagefaults S' = numpagefaults S
      \<and> numpgwriteback S' = numpgwriteback S
      \<and> numillegalrefs S' = numillegalrefs S"
  using assms unat_suc_u32 [of "clock S"]
  by (auto simp: reference_page_def reference_page_lru_def Let_def pgt_upd_def emit_def
      in_range_def)

text \<open>The write that wraps the clock: the timestamp is the old clock value, the new
  clock is 0, the warning is printed, and only the write counter moves.\<close>

theorem reference_page_lru_clock_witness:
  "in_range (pgt S_wrap) 0 \<and> reference_page LRU S_wrap 0 (CHR ''W'') = Inr S_stuck \<and>
   clock S_wrap = 4294967295 \<and> timestamp (pgt S_stuck ! nat 0) = 4294967295 \<and>
   clock S_stuck = 0 \<and> out S_stuck = out S_wrap @ [EvClockOverflow] \<and>
   numrefsread S_stuck = numrefsread S_wrap \<and>
   numrefswrite S_stuck = numrefswrite S_wrap + 1 \<and>
   numpagefaults S_stuck = numpagefaults S_wrap \<and>
   numpgwriteback S_stuck = numpgwriteback S_wrap \<and>
   numillegalrefs S_stuck = numillegalrefs S_wrap"
proof -
  have r: "in_range (pgt S_wrap) 0" by (simp add: S_wrap_def in_range_def)
  have e: "reference_page LRU S_wrap 0 (CHR ''W'') = Inr S_stuck"
    by (simp add: S_wrap_def S_stuck_def in_range_def reference_page_def
        reference_page_lru_def pgt_upd_def emit_def)
  have c: "clock S_wrap = 4294967295" "out S_wrap = []" by (simp_all add: S_wrap_def)
  from reference_page_lru_clock [OF r, of "CHR ''W''"] r e c show ?thesis by simp
qed

section \<open>What \<open>init_tables\<close> leaves alone\<close>

text \<open>
  Claim C10. For a system with a positive frame count and tables at least as long as
  the configured sizes, \<open>init_tables\<close> succeeds; it zeroes the \<open>numpags\<close> page-table
  entries, sets the clock to 0, \<open>lru\<close> and \<open>listoccupied\<close> to -1 and \<open>listfree\<close> to the last
  frame, and leaves the five counters and the \<open>detailed\<close> flag as they were. So counters
  that are not zero before the call are not zero after it.
\<close>

theorem init_tables_keeps_counters:
  assumes "0 \<le> numpags S" "numpags S \<le> int (length (pgt S))"
    and "0 < numframes S" "numframes S \<le> int (length (frt S))"
  shows "\<exists>S'. init_tables S = Inr S' \<and>
           numrefsread S' = numrefsread S \<and> numrefswrite S' = numrefswrite S \<and>
           numpagefaults S' = numpagefaults S \<and> numpgwriteback S' = numpgwriteback S \<and>
           numillegalrefs S' = numillegalrefs S \<and> detailed S' = detailed S \<and>
           (\<forall>i < nat (numpags S). pgt S' ! i = zero_page) \<and>
           clock S' = 0 \<and> lru S' = - 1 \<and>
           listfree S' = numframes S - 1 \<and> listoccupied S' = - 1"
proof -
  from init_tables_ok [OF assms] obtain fs where
    "init_tables S =
           Inr (S\<lparr>pgt := replicate (nat (numpags S)) zero_page @ drop (nat (numpags S)) (pgt S),
                  lru := - 1, clock := 0, frt := fs, listfree := numframes S - 1,
                  listoccupied := - 1\<rparr>)" by blast
  then show ?thesis by (simp add: nth_append)
qed

text \<open>A structure reused after a run with 3 reads, 1 write, 2 faults, 1 write-back and 4
  illegal references keeps those numbers through \<open>init_tables\<close>.\<close>

theorem init_tables_keeps_counters_witness:
  "0 \<le> numpags S_raw \<and> numpags S_raw \<le> int (length (pgt S_raw)) \<and>
   0 < numframes S_raw \<and> numframes S_raw \<le> int (length (frt S_raw)) \<and>
   init_tables (S_raw\<lparr>numrefsread := 3, numrefswrite := 1, numpagefaults := 2,
                      numpgwriteback := 1, numillegalrefs := 4, detailed := True\<rparr>) =
     Inr (S_init\<lparr>numrefsread := 3, numrefswrite := 1, numpagefaults := 2,
                 numpgwriteback := 1, numillegalrefs := 4, detailed := True\<rparr>)"
  using init_tables_keeps_counters
    [of "S_raw\<lparr>numrefsread := 3, numrefswrite := 1, numpagefaults := 2,
                numpgwriteback := 1, numillegalrefs := 4, detailed := True\<rparr>"]
  by (simp add: init_tables_def S_raw_def S_init_def init_loop.simps in_range_def
      eval_nat_numeral)

end
